theory Spec2Isabelle
  imports Complex_Main
begin

unbundle bit_operations_syntax

section \<open>JavaScript numbers\<close>

text \<open>
  The converters of \<^verbatim>\<open>utils.ts\<close> compute on JavaScript numbers. A number is modelled as
  a real, or one of the three non-finite values. Finite arithmetic is exact: the rounding of
  doubles, the rounding of a store into a \<^verbatim>\<open>Float32Array\<close>, overflow of a finite result
  and the sign of zero are not modelled. The non-finite cases follow ECMAScript, with every
  zero read as \<open>+0\<close>.
\<close>

datatype jsnum = Fin real | PInf | NInf | NaN

fun jneg :: "jsnum \<Rightarrow> jsnum" where
  "jneg (Fin x) = Fin (- x)"
| "jneg PInf = NInf"
| "jneg NInf = PInf"
| "jneg NaN = NaN"

fun jadd :: "jsnum \<Rightarrow> jsnum \<Rightarrow> jsnum" where
  "jadd NaN y = NaN"
| "jadd x NaN = NaN"
| "jadd (Fin x) (Fin y) = Fin (x + y)"
| "jadd PInf NInf = NaN"
| "jadd NInf PInf = NaN"
| "jadd PInf y = PInf"
| "jadd x PInf = PInf"
| "jadd NInf y = NInf"
| "jadd x NInf = NInf"

definition jsub :: "jsnum \<Rightarrow> jsnum \<Rightarrow> jsnum" where
  "jsub x y = jadd x (jneg y)"

fun jmul :: "jsnum \<Rightarrow> jsnum \<Rightarrow> jsnum" where
  "jmul NaN y = NaN"
| "jmul x NaN = NaN"
| "jmul (Fin x) (Fin y) = Fin (x * y)"
| "jmul (Fin x) PInf = (if x = 0 then NaN else if 0 < x then PInf else NInf)"
| "jmul (Fin x) NInf = (if x = 0 then NaN else if 0 < x then NInf else PInf)"
| "jmul PInf (Fin y) = (if y = 0 then NaN else if 0 < y then PInf else NInf)"
| "jmul NInf (Fin y) = (if y = 0 then NaN else if 0 < y then NInf else PInf)"
| "jmul PInf PInf = PInf"
| "jmul PInf NInf = NInf"
| "jmul NInf PInf = NInf"
| "jmul NInf NInf = PInf"

fun jdiv :: "jsnum \<Rightarrow> jsnum \<Rightarrow> jsnum" where
  "jdiv NaN y = NaN"
| "jdiv x NaN = NaN"
| "jdiv (Fin x) (Fin y) =
     (if y = 0 then (if x = 0 then NaN else if 0 < x then PInf else NInf) else Fin (x / y))"
| "jdiv (Fin x) PInf = Fin 0"
| "jdiv (Fin x) NInf = Fin 0"
| "jdiv PInf (Fin y) = (if 0 \<le> y then PInf else NInf)"
| "jdiv NInf (Fin y) = (if 0 \<le> y then NInf else PInf)"
| "jdiv PInf PInf = NaN"
| "jdiv PInf NInf = NaN"
| "jdiv NInf PInf = NaN"
| "jdiv NInf NInf = NaN"

text \<open>\<^verbatim>\<open>x < y\<close>: false whenever an operand is NaN.\<close>

fun jlt :: "jsnum \<Rightarrow> jsnum \<Rightarrow> bool" where
  "jlt NaN y = False"
| "jlt x NaN = False"
| "jlt (Fin x) (Fin y) = (x < y)"
| "jlt (Fin x) PInf = True"
| "jlt (Fin x) NInf = False"
| "jlt PInf y = False"
| "jlt NInf (Fin y) = True"
| "jlt NInf PInf = True"
| "jlt NInf NInf = False"

definition is_odd_integer :: "real \<Rightarrow> bool" where
  "is_odd_integer y = (y = of_int \<lfloor>y\<rfloor> \<and> odd \<lfloor>y\<rfloor>)"

text \<open>
  \<^verbatim>\<open>Math.pow(base, exponent)\<close>, by the cases of ECMAScript's Number::exponentiate; the
  finite case is the exact power.
\<close>

fun jpow :: "jsnum \<Rightarrow> jsnum \<Rightarrow> jsnum" where
  "jpow b NaN = NaN"
| "jpow b (Fin y) =
     (if y = 0 then Fin 1
      else case b of
        NaN \<Rightarrow> NaN
      | PInf \<Rightarrow> (if 0 < y then PInf else Fin 0)
      | NInf \<Rightarrow> (if 0 < y then (if is_odd_integer y then NInf else PInf) else Fin 0)
      | Fin x \<Rightarrow>
          (if x = 0 then (if 0 < y then Fin 0 else PInf)
           else if 0 < x then Fin (x powr y)
           else if y = of_int \<lfloor>y\<rfloor> then Fin (x powi \<lfloor>y\<rfloor>)
           else NaN))"
| "jpow b PInf =
     (case b of
        NaN \<Rightarrow> NaN
      | PInf \<Rightarrow> PInf
      | NInf \<Rightarrow> PInf
      | Fin x \<Rightarrow>
          (if x = 0 then Fin 0
           else if 1 < \<bar>x\<bar> then PInf
           else if \<bar>x\<bar> = 1 then NaN
           else Fin 0))"
| "jpow b NInf =
     (case b of
        NaN \<Rightarrow> NaN
      | PInf \<Rightarrow> Fin 0
      | NInf \<Rightarrow> Fin 0
      | Fin x \<Rightarrow>
          (if x = 0 then PInf
           else if 1 < \<bar>x\<bar> then Fin 0
           else if \<bar>x\<bar> = 1 then NaN
           else PInf))"

text \<open>\<^verbatim>\<open>x | 0\<close> is ToInt32: truncate towards zero, wrap into 32 signed bits.\<close>

fun toInt32 :: "jsnum \<Rightarrow> int" where
  "toInt32 (Fin x) = signed_take_bit 31 (if 0 \<le> x then \<lfloor>x\<rfloor> else \<lceil>x\<rceil>)"
| "toInt32 PInf = 0"
| "toInt32 NInf = 0"
| "toInt32 NaN = 0"

text \<open>\<^verbatim>\<open>x >> k\<close> on an integral number: the arithmetic shift of its 32-bit value.\<close>

definition sshr32 :: "int \<Rightarrow> nat \<Rightarrow> int" where
  "sshr32 x k = drop_bit k (signed_take_bit 31 x)"


section \<open>Image data and the luminance sample\<close>

datatype error = RangeError | InvalidDimensions | InvalidGamma

text \<open>
  \<^verbatim>\<open>RangeError\<close> is what a typed-array constructor raises on a length it refuses.
  \<^verbatim>\<open>InvalidDimensions\<close> and \<^verbatim>\<open>InvalidGamma\<close> are the errors the specification names;
  no line of the source raises them.
\<close>

text \<open>
  \<^verbatim>\<open>new Uint8Array(n)\<close> and \<^verbatim>\<open>new Float32Array(n)\<close> refuse a negative length and a
  length above \<open>2\<^sup>5\<^sup>3 - 1\<close> (ECMAScript's ToIndex), and a length whose bytes exceed the
  greatest byte length the engine gives a typed array. That limit is implementation-defined,
  so it is a parameter, \<open>maxByteLength\<close>, of the two converters; \<open>b\<close> is the size of an
  element in bytes. A refusal for want of memory is not modelled.
\<close>

definition alloc_fails :: "int \<Rightarrow> int \<Rightarrow> int \<Rightarrow> bool" where
  "alloc_fails maxByteLength b n = (n < 0 \<or> 2 ^ 53 - 1 < n \<or> maxByteLength < b * n)"

record ImageData =
  data :: "nat list"
  width :: int
  height :: int

text \<open>\<^verbatim>\<open>d[p]\<close> used in arithmetic: reading past the end gives \<^verbatim>\<open>undefined\<close>, which is NaN.\<close>

definition rd :: "nat list \<Rightarrow> nat \<Rightarrow> jsnum" where
  "rd d p = (if p < length d then Fin (real (d ! p)) else NaN)"

text \<open>
  Lines 150-151 and 233-234: the four reads \<^verbatim>\<open>d[p++]\<close> of one pixel, compositing over white
  and the gamma curve. \<open>p\<close> is the read index before the pixel.
\<close>

definition lum :: "nat list \<Rightarrow> nat \<Rightarrow> jsnum" where
  "lum d p =
     jdiv (jsub (jadd (jdiv (jmul (jadd (jadd (jmul (rd d p) (Fin 0.29891))
                                                (jmul (rd d (p + 1)) (Fin 0.58661)))
                                          (jmul (rd d (p + 2)) (Fin 0.11448)))
                                    (rd d (p + 3)))
                              (Fin 255))
                        (Fin 255))
                (rd d (p + 3)))
          (Fin 255)"

definition sample :: "nat list \<Rightarrow> nat \<Rightarrow> jsnum \<Rightarrow> jsnum" where
  "sample d p g = jmul (jpow (lum d p) (jdiv (Fin 1) g)) (Fin 255)"


section \<open>toMonoImage\<close>

definition bayer :: "nat list list" where
  "bayer =
    [[2, 130, 34, 162, 10, 138, 42, 170],
     [194, 66, 226, 98, 202, 74, 234, 106],
     [50, 178, 18, 146, 58, 186, 26, 154],
     [242, 114, 210, 82, 250, 122, 218, 90],
     [14, 142, 46, 174, 6, 134, 38, 166],
     [206, 78, 238, 110, 198, 70, 230, 102],
     [62, 190, 30, 158, 54, 182, 22, 150],
     [254, 126, 222, 94, 246, 118, 214, 86]]"

text \<open>
  The three \<^verbatim>\<open>Float32Array\<close> objects live in a store, addressed by reference, and
  \<^verbatim>\<open>errorBuffer\<close> is the array of references: two slots of it may hold the same object.
\<close>

type_synonym ref = nat
type_synonym store = "ref \<Rightarrow> jsnum list"

record mono_state =
  st_n :: nat
  st_p :: nat
  st_q :: nat
  st_r :: "nat list"
  st_heap :: store
  errorBuffer :: "ref list"

text \<open>A typed-array read: \<^verbatim>\<open>undefined\<close> (NaN in arithmetic) out of range.\<close>

definition rdf :: "jsnum list \<Rightarrow> nat \<Rightarrow> jsnum" where
  "rdf xs k = (if k < length xs then xs ! k else NaN)"

text \<open>\<^verbatim>\<open>a[k] += x\<close> on a typed array; a write out of range is ignored.\<close>

definition bump :: "ref \<times> nat \<times> jsnum \<Rightarrow> store \<Rightarrow> store" where
  "bump = (\<lambda>(a, k, x) hp. hp(a := (hp a)[k := jadd (rdf (hp a) k) x]))"

text \<open>Lines 173-183: the writes of one pixel's error, in the source's order.\<close>

definition diffuse :: "int \<Rightarrow> ref \<Rightarrow> ref \<Rightarrow> ref \<Rightarrow> nat \<Rightarrow> jsnum \<Rightarrow> store \<Rightarrow> store" where
  "diffuse s cur nxt nxt2 i err hp =
     (if s = 1 then
        fold bump
          [(cur, i + 3, jdiv (jmul err (Fin 7)) (Fin 16)),
           (nxt, i + 1, jdiv (jmul err (Fin 3)) (Fin 16)),
           (nxt, i + 2, jdiv (jmul err (Fin 5)) (Fin 16)),
           (nxt, i + 3, jdiv (jmul err (Fin 1)) (Fin 16))] hp
      else if s = 2 then
        (let dist = jdiv err (Fin 8) in
         fold bump
           [(cur, i + 3, dist), (cur, i + 4, dist),
            (nxt, i + 1, dist), (nxt, i + 2, dist), (nxt, i + 3, dist),
            (nxt2, i + 2, dist)] hp)
      else if s = 3 then
        (let dist = jdiv err (Fin 42) in
         fold bump
           [(cur, i + 3, jmul dist (Fin 8)), (cur, i + 4, jmul dist (Fin 4)),
            (nxt, i, jmul dist (Fin 2)), (nxt, i + 1, jmul dist (Fin 4)),
            (nxt, i + 2, jmul dist (Fin 8)), (nxt, i + 3, jmul dist (Fin 4)),
            (nxt, i + 4, jmul dist (Fin 2)),
            (nxt2, i, jmul dist (Fin 1)), (nxt2, i + 1, jmul dist (Fin 2)),
            (nxt2, i + 2, jmul dist (Fin 4)), (nxt2, i + 3, jmul dist (Fin 2)),
            (nxt2, i + 4, jmul dist (Fin 1))] hp)
      else hp)"

text \<open>Lines 147-166: the threshold \<open>t\<close> and the value \<open>v\<close> that is compared with it.\<close>

definition mono_t :: "int \<Rightarrow> nat \<Rightarrow> nat \<Rightarrow> nat" where
  "mono_t s j i = (if s = 0 then bayer ! (j AND 7) ! (i AND 7) else 128)"

definition mono_v :: "nat list \<Rightarrow> int \<Rightarrow> jsnum \<Rightarrow> ref \<Rightarrow> nat \<Rightarrow> mono_state \<Rightarrow> jsnum" where
  "mono_v d s g cur i st =
     (if s = 0 then sample d (st_p st) g
      else jadd (sample d (st_p st) g) (rdf (st_heap st cur) (i + 2)))"

definition isDark :: "nat list \<Rightarrow> int \<Rightarrow> jsnum \<Rightarrow> ref \<Rightarrow> nat \<Rightarrow> nat \<Rightarrow> mono_state \<Rightarrow> bool" where
  "isDark d s g cur j i st = jlt (mono_v d s g cur i st) (Fin (real (mono_t s j i)))"

text \<open>Line 169: the running byte after the pixel's bit, \<^verbatim>\<open>n |= (128 >> b)\<close> when dark.\<close>

definition mono_acc :: "nat list \<Rightarrow> int \<Rightarrow> jsnum \<Rightarrow> ref \<Rightarrow> nat \<Rightarrow> nat \<Rightarrow> mono_state \<Rightarrow> nat" where
  "mono_acc d s g cur j i st =
     (if isDark d s g cur j i st then st_n st OR drop_bit (i AND 7) 128 else st_n st)"

text \<open>Line 172: \<^verbatim>\<open>err = v - (isDark ? 0 : 255)\<close>.\<close>

definition mono_err :: "nat list \<Rightarrow> int \<Rightarrow> jsnum \<Rightarrow> ref \<Rightarrow> nat \<Rightarrow> nat \<Rightarrow> mono_state \<Rightarrow> jsnum" where
  "mono_err d s g cur j i st =
     jsub (mono_v d s g cur i st) (Fin (if isDark d s g cur j i st then 0 else 255))"

text \<open>
  Lines 145-191, one pass of the inner loop body at column \<open>i\<close> of row \<open>j\<close>. The output
  \<^verbatim>\<open>r\<close> is a \<^verbatim>\<open>Uint8Array\<close>: a store keeps the value modulo 256 and is ignored out of range.
\<close>

definition mono_pixel ::
  "nat list \<Rightarrow> int \<Rightarrow> int \<Rightarrow> jsnum \<Rightarrow> ref \<Rightarrow> ref \<Rightarrow> ref \<Rightarrow> nat \<Rightarrow> nat \<Rightarrow> mono_state \<Rightarrow> mono_state" where
  "mono_pixel d w s g cur nxt nxt2 j i st =
     (let n1 = mono_acc d s g cur j i st;
          hp = (if 0 < s then diffuse s cur nxt nxt2 i (mono_err d s g cur j i st) (st_heap st)
                else st_heap st);
          flush = (i AND 7 = 7 \<or> int i = w - 1)
      in st\<lparr>st_n := (if flush then 0 else n1),
            st_p := st_p st + 4,
            st_q := (if flush then st_q st + 1 else st_q st),
            st_r := (if flush then (st_r st)[st_q st := (if n1 = 16 then 32 else n1) mod 256]
                     else st_r st),
            st_heap := hp\<rparr>)"

text \<open>
  Lines 141-194, one pass of the outer loop body: bind the three slots, \<^verbatim>\<open>nxt2.fill(0)\<close>,
  the row's pixels, then \<^verbatim>\<open>errorBuffer.shift(); errorBuffer.push(nxt2)\<close>.
\<close>

definition mono_row :: "nat list \<Rightarrow> int \<Rightarrow> int \<Rightarrow> jsnum \<Rightarrow> nat \<Rightarrow> mono_state \<Rightarrow> mono_state" where
  "mono_row d w s g j st =
     (let cur = errorBuffer st ! 0;
          nxt = errorBuffer st ! 1;
          nxt2 = errorBuffer st ! 2;
          st1 = st\<lparr>st_heap := (st_heap st)(nxt2 := map (\<lambda>x. Fin 0) (st_heap st nxt2))\<rparr>;
          st2 = fold (mono_pixel d w s g cur nxt nxt2 j) [0..<nat w] st1
      in st2\<lparr>errorBuffer := tl (errorBuffer st2) @ [nxt2]\<rparr>)"

text \<open>Lines 134-139: the output of \<open>sz\<close> zero bytes and three zeroed buffers of \<open>w + 4\<close>.\<close>

definition mono_init :: "int \<Rightarrow> int \<Rightarrow> mono_state" where
  "mono_init w sz =
     \<lparr>st_n = 0, st_p = 0, st_q = 0, st_r = replicate (nat sz) 0,
      st_heap = (\<lambda>a. if a < 3 then replicate (nat (w + 4)) (Fin 0) else []),
      errorBuffer = [0, 1, 2]\<rparr>"

definition mono_targetSize :: "int \<Rightarrow> int \<Rightarrow> int" where
  "mono_targetSize w h = sshr32 (w + 7) 3 * h"

text \<open>
  Lines 130-196. The allocations of lines 135 and 137-139 come before the loop: the output
  of \<^verbatim>\<open>targetSize\<close> bytes, then the error buffers of \<open>w + 4\<close> floats of four bytes. A refused
  allocation ends the call with RangeError.
\<close>

definition toMonoImage :: "int \<Rightarrow> ImageData \<Rightarrow> int \<Rightarrow> jsnum \<Rightarrow> error + nat list" where
  "toMonoImage maxByteLength imgdata s g =
     (let d = data imgdata; w = width imgdata; h = height imgdata;
          targetSize = mono_targetSize w h
      in if alloc_fails maxByteLength 1 targetSize then Inl RangeError
         else if alloc_fails maxByteLength 4 (w + 4) then Inl RangeError
         else Inr (st_r (fold (mono_row d w s g) [0..<nat h] (mono_init w targetSize))))"


section \<open>toGrayImage\<close>

definition thermal :: "nat list" where
  "thermal =
    [0, 7, 13, 19, 23, 27, 31, 35, 40, 44, 49, 52, 54, 55, 57, 59, 61, 62, 64, 66, 67, 69, 70, 70,
     71, 72, 73, 74, 75, 76, 77, 78, 79, 80, 81, 82, 83, 83, 84, 85, 86, 86, 87, 88, 88, 89, 90, 90,
     91, 91, 92, 93, 93, 94, 94, 95, 96, 96, 97, 98, 98, 99, 99, 100, 101, 101, 102, 102, 103, 103,
     104, 104, 105, 105, 106, 106, 107, 107, 108, 108, 109, 109, 110, 110, 111, 111, 112, 112, 112,
     113, 113, 114, 114, 115, 115, 116, 116, 117, 117, 118, 118, 119, 119, 120, 120, 120, 121, 121,
     122, 122, 123, 123, 123, 124, 124, 125, 125, 125, 126, 126, 127, 127, 127, 128, 128, 129, 129,
     130, 130, 130, 131, 131, 132, 132, 132, 133, 133, 134, 134, 135, 135, 135, 136, 136, 137, 137,
     137, 138, 138, 139, 139, 139, 140, 140, 141, 141, 141, 142, 142, 143, 143, 143, 144, 144, 145,
     145, 146, 146, 146, 147, 147, 148, 148, 148, 149, 149, 150, 150, 150, 151, 151, 152, 152, 152,
     153, 153, 154, 154, 155, 155, 155, 156, 156, 157, 157, 158, 158, 159, 159, 160, 160, 161, 161,
     161, 162, 162, 163, 163, 164, 164, 165, 165, 166, 166, 166, 167, 167, 168, 168, 169, 169, 170,
     170, 171, 171, 172, 173, 173, 174, 175, 175, 176, 177, 178, 178, 179, 180, 180, 181, 182, 182,
     183, 184, 184, 185, 186, 186, 187, 189, 191, 193, 195, 198, 200, 202, 255]"

definition m4 :: "nat list list" where
  "m4 = [[0, 9, 2, 11], [13, 4, 15, 6], [3, 12, 1, 10], [16, 7, 14, 5]]"

record gray_state =
  gs_n :: nat
  gs_p :: nat
  gs_q :: nat
  gs_r :: "nat list"

text \<open>\<^verbatim>\<open>thermal[k]\<close>: \<^verbatim>\<open>undefined\<close> (here \<open>None\<close>) when \<open>k\<close> is not an index of the table.\<close>

definition thermal_at :: "int \<Rightarrow> nat option" where
  "thermal_at k = (if 0 \<le> k \<and> k < int (length thermal) then Some (thermal ! nat k) else None)"

text \<open>
  Lines 236-237 on a table value \<open>v\<close> at matrix entry \<open>m\<close>: \<^verbatim>\<open>(v / 17) | 0\<close>, one more when
  \<^verbatim>\<open>m < v % 17\<close>.
\<close>

definition quantize :: "nat \<Rightarrow> nat \<Rightarrow> nat" where
  "quantize m v = (let v1 = v div 17 in if m < v mod 17 then v1 + 1 else v1)"

text \<open>
  Lines 234-237 on a sampled brightness. With \<^verbatim>\<open>v\<close> undefined, \<^verbatim>\<open>(v / 17) | 0\<close> is
  \<^verbatim>\<open>NaN | 0 = 0\<close> and \<^verbatim>\<open>m < NaN\<close> is false, so the level is 0.
\<close>

definition level_of :: "nat \<Rightarrow> jsnum \<Rightarrow> nat" where
  "level_of m x = (case thermal_at (toInt32 x) of None \<Rightarrow> 0 | Some v \<Rightarrow> quantize m v)"

definition gray_level :: "nat list \<Rightarrow> jsnum \<Rightarrow> nat \<Rightarrow> nat \<Rightarrow> nat \<Rightarrow> nat" where
  "gray_level d g j i p = level_of (m4 ! (j AND 3) ! (i AND 3)) (sample d p g)"

text \<open>Lines 231-246, one pass of the inner loop body.\<close>

definition gray_pixel :: "nat list \<Rightarrow> int \<Rightarrow> jsnum \<Rightarrow> nat \<Rightarrow> nat \<Rightarrow> gray_state \<Rightarrow> gray_state" where
  "gray_pixel d w g j i st =
     (let b = i AND 1;
          v1 = gray_level d g j i (gs_p st);
          n1 = gs_n st OR push_bit (push_bit 2 (1 - b)) v1;
          flush = (b = 1 \<or> int i = w - 1)
      in st\<lparr>gs_n := (if flush then 0 else n1),
            gs_p := gs_p st + 4,
            gs_q := (if flush then gs_q st + 1 else gs_q st),
            gs_r := (if flush then (gs_r st)[gs_q st := n1 mod 256] else gs_r st)\<rparr>)"

definition gray_row :: "nat list \<Rightarrow> int \<Rightarrow> jsnum \<Rightarrow> nat \<Rightarrow> gray_state \<Rightarrow> gray_state" where
  "gray_row d w g j st = fold (gray_pixel d w g j) [0..<nat w] st"

definition gray_init :: "int \<Rightarrow> gray_state" where
  "gray_init sz = \<lparr>gs_n = 0, gs_p = 0, gs_q = 0, gs_r = replicate (nat sz) 0\<rparr>"

definition gray_targetSize :: "int \<Rightarrow> int \<Rightarrow> int" where
  "gray_targetSize w h = sshr32 (w + 1) 1 * h"

text \<open>
  Lines 202-249. The one allocation, of the output of \<^verbatim>\<open>targetSize\<close> bytes, comes before
  the loop; refused, it ends the call with RangeError.
\<close>

definition toGrayImage :: "int \<Rightarrow> ImageData \<Rightarrow> jsnum \<Rightarrow> error + nat list" where
  "toGrayImage maxByteLength imgdata g =
     (let d = data imgdata; w = width imgdata; h = height imgdata;
          targetSize = gray_targetSize w h
      in if alloc_fails maxByteLength 1 targetSize then Inl RangeError
         else Inr (gs_r (fold (gray_row d w g) [0..<nat h] (gray_init targetSize))))"


section \<open>Derived notions\<close>

text \<open>A well-formed PixelBuffer: both dimensions at least 1 and four bytes per pixel.\<close>

definition valid_image :: "ImageData \<Rightarrow> bool" where
  "valid_image img =
     (1 \<le> width img \<and> 1 \<le> height img \<and>
      int (length (data img)) = width img * height img * 4)"

text \<open>
  The engine accepts every allocation of a conversion: the output of \<open>targetSize\<close> bytes and,
  for toMonoImage, the three error buffers of \<open>w + 4\<close> floats.
\<close>

definition mono_accepts :: "int \<Rightarrow> ImageData \<Rightarrow> bool" where
  "mono_accepts maxByteLength img =
     (\<not> alloc_fails maxByteLength 1 (mono_targetSize (width img) (height img)) \<and>
      \<not> alloc_fails maxByteLength 4 (width img + 4))"

definition gray_accepts :: "int \<Rightarrow> ImageData \<Rightarrow> bool" where
  "gray_accepts maxByteLength img =
     (\<not> alloc_fails maxByteLength 1 (gray_targetSize (width img) (height img)))"


definition flushes :: "nat \<Rightarrow> nat \<Rightarrow> nat \<Rightarrow> nat" where
  "flushes G W i = (if i = W then (W + G - 1) div G else i div G)"

definition flush_col :: "nat \<Rightarrow> nat \<Rightarrow> nat \<Rightarrow> nat" where
  "flush_col G W k = min (G * k + G - 1) (W - 1)"

text \<open>The state before row \<open>j\<close> of a conversion.\<close>

definition mono_rows :: "ImageData \<Rightarrow> int \<Rightarrow> jsnum \<Rightarrow> nat \<Rightarrow> mono_state" where
  "mono_rows img s g j =
     fold (mono_row (data img) (width img) s g) [0..<j]
       (mono_init (width img) (mono_targetSize (width img) (height img)))"

text \<open>The state of a row that starts at \<open>st\<close>, after \<^verbatim>\<open>nxt2.fill(0)\<close>.\<close>

definition mono_row_start :: "mono_state \<Rightarrow> mono_state" where
  "mono_row_start st =
     st\<lparr>st_heap := (st_heap st)(errorBuffer st ! 2 := map (\<lambda>x. Fin 0) (st_heap st (errorBuffer st ! 2)))\<rparr>"

text \<open>The state before column \<open>i\<close> of row \<open>j\<close>, when the row starts at \<open>st\<close>.\<close>

definition mono_cols :: "nat list \<Rightarrow> int \<Rightarrow> int \<Rightarrow> jsnum \<Rightarrow> nat \<Rightarrow> mono_state \<Rightarrow> nat \<Rightarrow> mono_state" where
  "mono_cols d w s g j st i =
     fold (mono_pixel d w s g (errorBuffer st ! 0) (errorBuffer st ! 1) (errorBuffer st ! 2) j)
       [0..<i] (mono_row_start st)"

definition mono_before :: "ImageData \<Rightarrow> int \<Rightarrow> jsnum \<Rightarrow> nat \<Rightarrow> nat \<Rightarrow> mono_state" where
  "mono_before img s g j i = mono_cols (data img) (width img) s g j (mono_rows img s g j) i"

text \<open>
  The accumulated packed byte at the \<open>k\<close>-th flush point of row \<open>j\<close>: the running byte
  \<^verbatim>\<open>n\<close> at line 186 of the column that flushes group \<open>k\<close>.
\<close>

definition mono_accumulated :: "ImageData \<Rightarrow> int \<Rightarrow> jsnum \<Rightarrow> nat \<Rightarrow> nat \<Rightarrow> nat" where
  "mono_accumulated img s g j k =
     mono_acc (data img) s g (errorBuffer (mono_rows img s g j) ! 0) j
       (flush_col 8 (nat (width img)) k)
       (mono_before img s g j (flush_col 8 (nat (width img)) k))"


text \<open>
  The running byte \<^verbatim>\<open>n\<close> at line 186 of pixel \<open>(j, i)\<close>: the bits of the pixel's group
  accumulated so far, the pixel's own included.
\<close>

definition mono_n_at :: "ImageData \<Rightarrow> int \<Rightarrow> jsnum \<Rightarrow> nat \<Rightarrow> nat \<Rightarrow> nat" where
  "mono_n_at img s g j i =
     mono_acc (data img) s g (errorBuffer (mono_rows img s g j) ! 0) j i (mono_before img s g j i)"

text \<open>
  The dimensions for which the 32-bit shift of \<open>w + 7\<close> (toMonoImage) and of \<open>w + 1\<close>
  (toGrayImage) does not wrap.
\<close>

definition dims_ok :: "ImageData \<Rightarrow> bool" where
  "dims_ok img = (0 \<le> width img \<and> width img < 2 ^ 31 - 7 \<and> 0 \<le> height img)"

definition gray_dims :: "ImageData \<Rightarrow> bool" where
  "gray_dims img = (0 \<le> width img \<and> width img < 2 ^ 31 - 1 \<and> 0 \<le> height img)"

text \<open>The state of toGrayImage before row \<open>j\<close>, and before column \<open>i\<close> of a row that starts at \<open>st\<close>.\<close>

definition gray_rows :: "ImageData \<Rightarrow> jsnum \<Rightarrow> nat \<Rightarrow> gray_state" where
  "gray_rows img g j =
     fold (gray_row (data img) (width img) g) [0..<j]
       (gray_init (gray_targetSize (width img) (height img)))"

definition gray_cols :: "nat list \<Rightarrow> int \<Rightarrow> jsnum \<Rightarrow> nat \<Rightarrow> gray_state \<Rightarrow> nat \<Rightarrow> gray_state" where
  "gray_cols d w g j st i = fold (gray_pixel d w g j) [0..<i] st"

text \<open>The buffers that the two loops leave when all rows are done.\<close>

definition mono_output :: "ImageData \<Rightarrow> int \<Rightarrow> jsnum \<Rightarrow> nat list" where
  "mono_output img s g = st_r (mono_rows img s g (nat (height img)))"

definition gray_output :: "ImageData \<Rightarrow> jsnum \<Rightarrow> nat list" where
  "gray_output img g = gs_r (gray_rows img g (nat (height img)))"

text \<open>The level \<^verbatim>\<open>v1\<close> of pixel \<open>(j, i)\<close> of an image: line 237 at the pixel's read index.\<close>

definition gray_level_at :: "ImageData \<Rightarrow> jsnum \<Rightarrow> nat \<Rightarrow> nat \<Rightarrow> nat" where
  "gray_level_at img g j i = gray_level (data img) g j i (4 * (j * nat (width img) + i))"

text \<open>The pixel read at index \<open>p\<close> lies inside the buffer and its four channels are bytes.\<close>

definition byte_pixel :: "nat list \<Rightarrow> nat \<Rightarrow> bool" where
  "byte_pixel d p =
     (p + 3 < length d \<and> d ! p \<le> 255 \<and> d ! (p + 1) \<le> 255 \<and> d ! (p + 2) \<le> 255 \<and>
      d ! (p + 3) \<le> 255)"

text \<open>
  The 4-bit level of pixel \<open>(j, i)\<close> read back from a packed grayscale buffer of row width
  \<open>W\<close>: the high nibble for an even column, the low nibble for an odd one.
\<close>

definition nibble_of :: "nat list \<Rightarrow> nat \<Rightarrow> nat \<Rightarrow> nat \<Rightarrow> nat" where
  "nibble_of out W j i =
     (out ! (j * ((W + 1) div 2) + i div 2) div (if even i then 16 else 1)) mod 16"

text \<open>The decision \<^verbatim>\<open>isDark\<close> of pixel \<open>(j, i)\<close> of a conversion.\<close>

definition mono_dark_at :: "ImageData \<Rightarrow> int \<Rightarrow> jsnum \<Rightarrow> nat \<Rightarrow> nat \<Rightarrow> bool" where
  "mono_dark_at img s g j i =
     isDark (data img) s g (errorBuffer (mono_rows img s g j) ! 0) j i (mono_before img s g j i)"

text \<open>Images whose every pixel is (255, 255, 255, 255), and whose every pixel is (0, 0, 0, 255).\<close>

definition white_image :: "ImageData \<Rightarrow> bool" where
  "white_image img = (valid_image img \<and> (\<forall>k < length (data img). data img ! k = 255))"

definition black_image :: "ImageData \<Rightarrow> bool" where
  "black_image img =
     (valid_image img \<and> (\<forall>k < length (data img). data img ! k = (if k mod 4 = 3 then 255 else 0)))"

text \<open>The three error buffers as allocated: \<open>w + 4\<close> zeros each.\<close>

definition zero_store :: "int \<Rightarrow> store" where
  "zero_store w = (\<lambda>a. if a < 3 then replicate (nat (w + 4)) (Fin 0) else [])"

text \<open>
  The kernels in the specification's words, for the modes 1 (Floyd-Steinberg), 2 (Atkinson)
  and 3 (Stucki): rows below the pixel, columns to its right, share of the error.
\<close>

definition spec_kernel :: "int \<Rightarrow> (nat \<times> int \<times> real) list" where
  "spec_kernel s =
     (if s = 1 then [(0, 1, 7 / 16), (1, - 1, 3 / 16), (1, 0, 5 / 16), (1, 1, 1 / 16)]
      else if s = 2 then
        [(0, 1, 1 / 8), (0, 2, 1 / 8), (1, - 1, 1 / 8), (1, 0, 1 / 8), (1, 1, 1 / 8), (2, 0, 1 / 8)]
      else if s = 3 then
        [(0, 1, 8 / 42), (0, 2, 4 / 42),
         (1, - 2, 2 / 42), (1, - 1, 4 / 42), (1, 0, 8 / 42), (1, 1, 4 / 42), (1, 2, 2 / 42),
         (2, - 2, 1 / 42), (2, - 1, 2 / 42), (2, 0, 4 / 42), (2, 1, 2 / 42), (2, 2, 1 / 42)]
      else [])"

section \<open>Basic facts\<close>

lemma and7: "(i::nat) AND 7 = i mod 8"
  using take_bit_eq_mod[of 3 i] by (simp add: take_bit_eq_mask mask_eq_exp_minus_1)

lemma and1: "(i::nat) AND 1 = i mod 2"
  using take_bit_eq_mod[of 1 i] by (simp add: take_bit_eq_mask mask_eq_exp_minus_1)

lemma sshr32_id: "0 \<le> x \<Longrightarrow> x < 2 ^ 31 \<Longrightarrow> sshr32 x k = x div 2 ^ k"
  by (simp add: sshr32_def drop_bit_eq_div signed_take_bit_int_eq_self)

lemma ceil8: "\<lceil>real_of_int w / 8\<rceil> = (w + 7) div 8"
proof -
  have "\<lceil>real_of_int w / real_of_int 8\<rceil> = - (- w div 8)" by (rule ceiling_divide_eq_div)
  then show ?thesis by simp
qed

lemma ceil2: "\<lceil>real_of_int w / 2\<rceil> = (w + 1) div 2"
proof -
  have "\<lceil>real_of_int w / real_of_int 2\<rceil> = - (- w div 2)" by (rule ceiling_divide_eq_div)
  then show ?thesis by simp
qed

lemma mono_pixel_sel:
  "st_n (mono_pixel d w s g cur nxt nxt2 j i st) =
     (if i mod 8 = 7 \<or> Suc i = nat w then 0 else mono_acc d s g cur j i st)"
  "st_p (mono_pixel d w s g cur nxt nxt2 j i st) = st_p st + 4"
  "st_q (mono_pixel d w s g cur nxt nxt2 j i st) =
     (if i mod 8 = 7 \<or> Suc i = nat w then Suc (st_q st) else st_q st)"
  "st_r (mono_pixel d w s g cur nxt nxt2 j i st) =
     (if i mod 8 = 7 \<or> Suc i = nat w
      then (st_r st)[st_q st := (if mono_acc d s g cur j i st = 16 then 32 else mono_acc d s g cur j i st) mod 256]
      else st_r st)"
  "st_heap (mono_pixel d w s g cur nxt nxt2 j i st) =
     (if 0 < s then diffuse s cur nxt nxt2 i (mono_err d s g cur j i st) (st_heap st) else st_heap st)"
  "errorBuffer (mono_pixel d w s g cur nxt nxt2 j i st) = errorBuffer st"
  by (auto simp: mono_pixel_def Let_def and7)

lemma gray_pixel_sel:
  "gs_n (gray_pixel d w g j i st) =
     (if i mod 2 = 1 \<or> Suc i = nat w then 0
      else gs_n st OR push_bit (push_bit 2 (1 - i mod 2)) (gray_level d g j i (gs_p st)))"
  "gs_p (gray_pixel d w g j i st) = gs_p st + 4"
  "gs_q (gray_pixel d w g j i st) =
     (if i mod 2 = 1 \<or> Suc i = nat w then Suc (gs_q st) else gs_q st)"
  "gs_r (gray_pixel d w g j i st) =
     (if i mod 2 = 1 \<or> Suc i = nat w
      then (gs_r st)[gs_q st := (gs_n st OR push_bit (push_bit 2 (1 - i mod 2)) (gray_level d g j i (gs_p st))) mod 256]
      else gs_r st)"
  by (auto simp: gray_pixel_def Let_def and1)

lemma length_fold_pres:
  assumes "\<And>x s. length (R (f x s)) = length (R s)"
  shows "length (R (fold f xs s)) = length (R s)"
  by (induction xs arbitrary: s) (simp_all add: assms)

lemma mono_row_length: "length (st_r (mono_row d w s g j st)) = length (st_r st)"
  unfolding mono_row_def Let_def
  by (simp add: length_fold_pres[where R = st_r] mono_pixel_sel)

lemma gray_row_length: "length (gs_r (gray_row d w g j st)) = length (gs_r st)"
  unfolding gray_row_def
  by (simp add: length_fold_pres[where R = gs_r] gray_pixel_sel)

lemma toMonoImage_length:
  "toMonoImage cap img s g = Inr out \<Longrightarrow> int (length out) = mono_targetSize (width img) (height img)"
  by (auto simp: toMonoImage_def Let_def length_fold_pres[where R = st_r] mono_row_length mono_init_def
      alloc_fails_def split: if_splits)

lemma toGrayImage_length:
  "toGrayImage cap img g = Inr out \<Longrightarrow> int (length out) = gray_targetSize (width img) (height img)"
  by (auto simp: toGrayImage_def Let_def length_fold_pres[where R = gs_r] gray_row_length gray_init_def
      alloc_fails_def split: if_splits)

lemma mono_targetSize_valid:
  "0 \<le> w \<Longrightarrow> w < 2 ^ 31 - 7 \<Longrightarrow> mono_targetSize w h = \<lceil>real_of_int w / 8\<rceil> * h"
  by (simp add: mono_targetSize_def sshr32_id ceil8)

lemma gray_targetSize_valid:
  "0 \<le> w \<Longrightarrow> w < 2 ^ 31 - 1 \<Longrightarrow> gray_targetSize w h = \<lceil>real_of_int w / 2\<rceil> * h"
  by (simp add: gray_targetSize_def sshr32_id ceil2)

lemma toMonoImage_returns:
  "mono_accepts cap img \<Longrightarrow> \<exists>out. toMonoImage cap img s g = Inr out"
  by (simp add: toMonoImage_def Let_def mono_accepts_def)

lemma toGrayImage_returns:
  "gray_accepts cap img \<Longrightarrow> \<exists>out. toGrayImage cap img g = Inr out"
  by (simp add: toGrayImage_def Let_def gray_accepts_def)

lemma mono_accepts_iff:
  assumes "0 \<le> width img" "width img < 2 ^ 31 - 7"
  shows "mono_accepts cap img =
           (0 \<le> \<lceil>real_of_int (width img) / 8\<rceil> * height img \<and>
            \<lceil>real_of_int (width img) / 8\<rceil> * height img < 2 ^ 53 \<and>
            \<lceil>real_of_int (width img) / 8\<rceil> * height img \<le> cap \<and>
            4 * (width img + 4) \<le> cap)"
proof -
  have "width img + 4 < 2 ^ 53" using assms(2) by simp
  then show ?thesis
    using assms(1) unfolding mono_accepts_def alloc_fails_def mono_targetSize_valid[OF assms]
    by auto
qed

lemma gray_accepts_iff:
  assumes "0 \<le> width img" "width img < 2 ^ 31 - 1"
  shows "gray_accepts cap img =
           (0 \<le> \<lceil>real_of_int (width img) / 2\<rceil> * height img \<and>
            \<lceil>real_of_int (width img) / 2\<rceil> * height img < 2 ^ 53 \<and>
            \<lceil>real_of_int (width img) / 2\<rceil> * height img \<le> cap)"
  unfolding gray_accepts_def alloc_fails_def gray_targetSize_valid[OF assms]
  by auto


section \<open>Output length\<close>

text \<open>
  C2, as stated, asks every well-formed pixel buffer to be converted. A well-formed buffer of
  width \<open>2\<^sup>3\<^sup>1 - 7\<close> is not: \<^verbatim>\<open>(w + 7) >> 3\<close> wraps to a negative number and the allocation
  of the output raises RangeError, whatever the engine's limit.
\<close>

theorem output_length_counterexample:
  "valid_image \<lparr>data = replicate 8589934564 255, width = 2147483641, height = 1\<rparr> \<and>
   toMonoImage 9007199254740991
     \<lparr>data = replicate 8589934564 255, width = 2147483641, height = 1\<rparr> 0 (Fin 1) = Inl RangeError"
  by (simp add: valid_image_def toMonoImage_def mono_targetSize_def sshr32_def alloc_fails_def)

text \<open>
  C2 (as amended). For every well-formed pixel buffer whose width is below \<open>2\<^sup>3\<^sup>1 - 7\<close> and
  whose allocations the engine accepts (an output of \<open>ceil(width/8) * height\<close> bytes, below
  \<open>2\<^sup>5\<^sup>3\<close> and at most the engine's limit \<open>cap\<close>, and three error buffers of \<open>4 * (width + 4)\<close>
  bytes, at most \<open>cap\<close>), toMonoImage returns exactly \<open>ceil(width/8) * height\<close> bytes. For
  every well-formed pixel buffer whose width is below \<open>2\<^sup>3\<^sup>1 - 1\<close> and whose output of
  \<open>ceil(width/2) * height\<close> bytes is below \<open>2\<^sup>5\<^sup>3\<close> and at most \<open>cap\<close>, toGrayImage returns
  exactly \<open>ceil(width/2) * height\<close> bytes. Both hold whatever the dither mode \<open>s\<close> and the
  gamma \<open>g\<close>.
\<close>

theorem output_length:
  assumes "valid_image img"
  shows "(width img < 2 ^ 31 - 7 \<and>
          \<lceil>real_of_int (width img) / 8\<rceil> * height img < 2 ^ 53 \<and>
          \<lceil>real_of_int (width img) / 8\<rceil> * height img \<le> cap \<and>
          4 * (width img + 4) \<le> cap \<longrightarrow>
            (\<exists>out. toMonoImage cap img s g = Inr out \<and>
               int (length out) = \<lceil>real_of_int (width img) / 8\<rceil> * height img)) \<and>
         (width img < 2 ^ 31 - 1 \<and>
          \<lceil>real_of_int (width img) / 2\<rceil> * height img < 2 ^ 53 \<and>
          \<lceil>real_of_int (width img) / 2\<rceil> * height img \<le> cap \<longrightarrow>
            (\<exists>out. toGrayImage cap img g = Inr out \<and>
               int (length out) = \<lceil>real_of_int (width img) / 2\<rceil> * height img))"
proof -
  from assms have w: "0 \<le> width img" "1 \<le> width img" and h: "1 \<le> height img"
    by (simp_all add: valid_image_def)
  have c8: "0 \<le> \<lceil>real_of_int (width img) / 8\<rceil>" and c2: "0 \<le> \<lceil>real_of_int (width img) / 2\<rceil>"
    using w by (simp_all add: ceil8 ceil2)
  have p8: "0 \<le> \<lceil>real_of_int (width img) / 8\<rceil> * height img" using c8 h by simp
  have p2: "0 \<le> \<lceil>real_of_int (width img) / 2\<rceil> * height img" using c2 h by simp
  have 1: "\<exists>out. toMonoImage cap img s g = Inr out \<and>
               int (length out) = \<lceil>real_of_int (width img) / 8\<rceil> * height img"
    if b: "width img < 2 ^ 31 - 7"
      and a: "\<lceil>real_of_int (width img) / 8\<rceil> * height img < 2 ^ 53"
        "\<lceil>real_of_int (width img) / 8\<rceil> * height img \<le> cap" "4 * (width img + 4) \<le> cap"
  proof -
    have "mono_accepts cap img" using a p8 by (simp add: mono_accepts_iff[OF w(1) b])
    then obtain out where o: "toMonoImage cap img s g = Inr out"
      using toMonoImage_returns by blast
    show ?thesis
      using o toMonoImage_length[OF o] mono_targetSize_valid[OF w(1) b] by simp
  qed
  have 2: "\<exists>out. toGrayImage cap img g = Inr out \<and>
               int (length out) = \<lceil>real_of_int (width img) / 2\<rceil> * height img"
    if b: "width img < 2 ^ 31 - 1"
      and a: "\<lceil>real_of_int (width img) / 2\<rceil> * height img < 2 ^ 53"
        "\<lceil>real_of_int (width img) / 2\<rceil> * height img \<le> cap"
  proof -
    have "gray_accepts cap img" using a p2 by (simp add: gray_accepts_iff[OF w(1) b])
    then obtain out where o: "toGrayImage cap img g = Inr out"
      using toGrayImage_returns by blast
    show ?thesis
      using o toGrayImage_length[OF o] gray_targetSize_valid[OF w(1) b] by simp
  qed
  from 1 2 show ?thesis by blast
qed

theorem output_length_witness:
  "valid_image \<lparr>data = [255, 255, 255, 255], width = 1, height = 1\<rparr> \<and>
   (\<exists>out. toMonoImage 4294967295 \<lparr>data = [255, 255, 255, 255], width = 1, height = 1\<rparr> 0 (Fin 1) = Inr out \<and>
      int (length out) = \<lceil>real_of_int 1 / 8\<rceil> * 1) \<and>
   (\<exists>out. toGrayImage 4294967295 \<lparr>data = [255, 255, 255, 255], width = 1, height = 1\<rparr> (Fin 1) = Inr out \<and>
      int (length out) = \<lceil>real_of_int 1 / 2\<rceil> * 1)"
proof -
  have v: "valid_image \<lparr>data = [255, 255, 255, 255], width = 1, height = 1\<rparr>"
    by (simp add: valid_image_def)
  show ?thesis using v output_length [OF v, of 4294967295 0 "Fin 1"] by simp
qed

section \<open>The packing loops\<close>

lemma flushes_0: "0 < G \<Longrightarrow> flushes G W 0 = 0"
  by (simp add: flushes_def)

lemma flushes_flush:
  assumes "0 < G" "Suc i \<le> W" "i mod G = G - 1 \<or> Suc i = W"
  shows "flushes G W (Suc i) = Suc (flushes G W i)" and "flush_col G W (flushes G W i) = i"
proof -
  have fi: "flushes G W i = i div G" using assms(2) by (simp add: flushes_def)
  have eq: "G * (i div G) + i mod G = i" by (rule mult_div_mod_eq)
  have lt: "i mod G < G" using assms(1) by simp
  show "flushes G W (Suc i) = Suc (flushes G W i)"
  proof (cases "Suc i = W")
    case True
    have "(Suc i + G - 1) div G = (i + G) div G" by simp
    also have "\<dots> = Suc (i div G)" using assms(1) by simp
    finally show ?thesis using True fi by (simp add: flushes_def)
  next
    case False
    with assms(3) have "i mod G = G - 1" by simp
    then have "Suc i mod G = 0" using assms(1) by (simp add: mod_Suc)
    then have "Suc i div G = Suc (i div G)" by (simp add: div_Suc)
    then show ?thesis using False fi by (simp add: flushes_def)
  qed
  show "flush_col G W (flushes G W i) = i"
  proof (cases "i mod G = G - 1")
    case True
    with eq assms(1) have "G * (i div G) + G - 1 = i" by simp
    then show ?thesis using assms(2) fi by (simp add: flush_col_def)
  next
    case False
    with assms(3) have W: "W - 1 = i" by simp
    have "i \<le> G * (i div G) + G - 1" using eq lt by linarith
    then show ?thesis using W fi by (simp add: flush_col_def)
  qed
qed

lemma flushes_noflush:
  assumes "0 < G" "Suc i \<le> W" "\<not> (i mod G = G - 1 \<or> Suc i = W)"
  shows "flushes G W (Suc i) = flushes G W i"
proof -
  from assms have "Suc (i mod G) \<noteq> G" by auto
  then have "Suc i mod G \<noteq> 0" by (simp add: mod_Suc)
  then have "Suc i div G = i div G" by (simp add: div_Suc)
  then show ?thesis using assms by (simp add: flushes_def)
qed

lemma pack_run:
  fixes step :: "nat \<Rightarrow> 'st \<Rightarrow> 'st"
  assumes G: "0 < G"
    and Qs: "\<And>i st. Q (step i st) = (if i mod G = G - 1 \<or> Suc i = W then Suc (Q st) else Q st)"
    and Rs: "\<And>i st. R (step i st) =
               (if i mod G = G - 1 \<or> Suc i = W then (R st)[Q st := out i st] else R st)"
    and i: "i \<le> W"
  shows "Q (fold step [0..<i] st0) = Q st0 + flushes G W i \<and>
         R (fold step [0..<i] st0) =
           fold (\<lambda>k r. r[Q st0 + k := out (flush_col G W k) (fold step [0..<flush_col G W k] st0)])
             [0..<flushes G W i] (R st0)"
  using i
proof (induction i)
  case 0
  show ?case using G by (simp add: flushes_0)
next
  case (Suc i)
  then have IH: "Q (fold step [0..<i] st0) = Q st0 + flushes G W i"
    "R (fold step [0..<i] st0) =
       fold (\<lambda>k r. r[Q st0 + k := out (flush_col G W k) (fold step [0..<flush_col G W k] st0)])
         [0..<flushes G W i] (R st0)"
    by simp_all
  show ?case
  proof (cases "i mod G = G - 1 \<or> Suc i = W")
    case True
    note f = flushes_flush[OF G Suc.prems True]
    show ?thesis using True IH by (simp add: Qs Rs f)
  next
    case False
    note f = flushes_noflush[OF G Suc.prems False]
    show ?thesis using False IH by (simp add: Qs Rs f)
  qed
qed

lemma fold_upd_length:
  "length (fold (\<lambda>k r. r[q + k := v k]) ks r) = length r"
  by (induction ks arbitrary: r) simp_all

lemma fold_upd_nth:
  "(fold (\<lambda>k r. r[q + k := v k]) [0..<K] r) ! m =
     (if q \<le> m \<and> m < q + K \<and> m < length r then v (m - q) else r ! m)"
proof (induction K)
  case 0
  show ?case by auto
next
  case (Suc K)
  let ?r = "fold (\<lambda>k r. r[q + k := v k]) [0..<K] r"
  have len: "length ?r = length r" by (rule fold_upd_length)
  show ?case
  proof (cases "m = q + K")
    case True
    show ?thesis
    proof (cases "m < length r")
      case True
      with \<open>m = q + K\<close> len show ?thesis by simp
    next
      case False
      with \<open>m = q + K\<close> len Suc show ?thesis by (simp add: list_update_beyond)
    qed
  next
    case False
    then show ?thesis using Suc by auto
  qed
qed

lemma rows_run:
  fixes row :: "nat \<Rightarrow> 'st \<Rightarrow> 'st"
  assumes Qs: "\<And>j st. Q (row j st) = Q st + K"
    and Rs: "\<And>j st. R (row j st) = fold (\<lambda>k r. r[Q st + k := v j k st]) [0..<K] (R st)"
  shows "Q (fold row [0..<j] st0) = Q st0 + j * K \<and>
         length (R (fold row [0..<j] st0)) = length (R st0) \<and>
         (\<forall>j'<j. \<forall>k<K. Q st0 + j' * K + k < length (R st0) \<longrightarrow>
            R (fold row [0..<j] st0) ! (Q st0 + j' * K + k) = v j' k (fold row [0..<j'] st0))"
proof (induction j)
  case 0
  show ?case by simp
next
  case (Suc j)
  let ?S = "fold row [0..<j] st0"
  from Suc have q: "Q ?S = Q st0 + j * K" and l: "length (R ?S) = length (R st0)"
    and old: "\<And>j' k. j' < j \<Longrightarrow> k < K \<Longrightarrow> Q st0 + j' * K + k < length (R st0) \<Longrightarrow>
            R ?S ! (Q st0 + j' * K + k) = v j' k (fold row [0..<j'] st0)"
    by simp_all
  have "R (fold row [0..<Suc j] st0) ! (Q st0 + j' * K + k) = v j' k (fold row [0..<j'] st0)"
    if "j' < Suc j" "k < K" "Q st0 + j' * K + k < length (R st0)" for j' k
  proof (cases "j' = j")
    case True
    then show ?thesis using that q l by (simp add: Rs fold_upd_nth)
  next
    case False
    with that have lt: "j' < j" by simp
    then have "Suc j' \<le> j" by simp
    then have "Suc j' * K \<le> j * K" by (rule mult_le_mono1)
    then have "j' * K + k < j * K" using that(2) by simp
    then show ?thesis using old[OF lt that(2,3)] q by (simp add: Rs fold_upd_nth)
  qed
  then show ?case using q l by (simp add: Qs Rs fold_upd_length)
qed

section \<open>toMonoImage: the stored bytes\<close>

lemma fold_pres:
  assumes "\<And>x s. F (f x s) = F s"
  shows "F (fold f xs s) = F s"
  by (induction xs arbitrary: s) (simp_all add: assms)

lemma mono_cols_errorBuffer: "errorBuffer (mono_cols d w s g j st i) = errorBuffer st"
  unfolding mono_cols_def
  by (simp add: fold_pres[where F = errorBuffer] mono_pixel_sel mono_row_start_def)

lemma mono_row_eq:
  "mono_row d w s g j st =
     (mono_cols d w s g j st (nat w))\<lparr>errorBuffer := tl (errorBuffer st) @ [errorBuffer st ! 2]\<rparr>"
proof -
  have "errorBuffer (mono_cols d w s g j st (nat w)) = errorBuffer st"
    by (rule mono_cols_errorBuffer)
  then show ?thesis
    unfolding mono_row_def mono_cols_def mono_row_start_def Let_def by simp
qed

lemma mono_cols_run:
  assumes "i \<le> nat w"
  shows "st_q (mono_cols d w s g j st i) = st_q st + flushes 8 (nat w) i"
    and "st_r (mono_cols d w s g j st i) =
           fold (\<lambda>k r. r[st_q st + k :=
                  (let a = mono_acc d s g (errorBuffer st ! 0) j (flush_col 8 (nat w) k)
                             (mono_cols d w s g j st (flush_col 8 (nat w) k))
                   in (if a = 16 then 32 else a) mod 256)])
             [0..<flushes 8 (nat w) i] (st_r st)"
proof -
  let ?step = "mono_pixel d w s g (errorBuffer st ! 0) (errorBuffer st ! 1) (errorBuffer st ! 2) j"
  let ?out = "\<lambda>i st'. (let a = mono_acc d s g (errorBuffer st ! 0) j i st' in (if a = 16 then 32 else a) mod 256)"
  have *: "st_q (fold ?step [0..<i] (mono_row_start st)) = st_q (mono_row_start st) + flushes 8 (nat w) i \<and>
        st_r (fold ?step [0..<i] (mono_row_start st)) =
           fold (\<lambda>k r. r[st_q (mono_row_start st) + k := ?out (flush_col 8 (nat w) k) (fold ?step [0..<flush_col 8 (nat w) k] (mono_row_start st))])
             [0..<flushes 8 (nat w) i] (st_r (mono_row_start st))"
    by (rule pack_run[where G = 8 and W = "nat w" and Q = st_q and R = st_r and out = ?out])
       (simp_all add: mono_pixel_sel assms Let_def)
  have q0: "st_q (mono_row_start st) = st_q st" "st_r (mono_row_start st) = st_r st"
    by (simp_all add: mono_row_start_def)
  show "st_q (mono_cols d w s g j st i) = st_q st + flushes 8 (nat w) i"
    using * by (simp add: mono_cols_def q0)
  show "st_r (mono_cols d w s g j st i) =
           fold (\<lambda>k r. r[st_q st + k :=
                  (let a = mono_acc d s g (errorBuffer st ! 0) j (flush_col 8 (nat w) k)
                             (mono_cols d w s g j st (flush_col 8 (nat w) k))
                   in (if a = 16 then 32 else a) mod 256)])
             [0..<flushes 8 (nat w) i] (st_r st)"
    using * by (simp add: mono_cols_def q0)
qed

lemma fold_inv:
  assumes "\<And>x s. P s \<Longrightarrow> P (f x s)" "P s"
  shows "P (fold f xs s)"
  using assms(2) by (induction xs arbitrary: s) (simp_all add: assms(1))

lemma or_less_exp_nat:
  fixes a b :: nat
  assumes "a < 2 ^ n" "b < 2 ^ n"
  shows "a OR b < 2 ^ n"
proof -
  have "take_bit n a = a" "take_bit n b = b"
    using assms by (simp_all add: take_bit_nat_eq_self)
  then have "take_bit n (a OR b) = a OR b"
    by (simp add: take_bit_or)
  then show ?thesis
    by (simp only: take_bit_nat_eq_self_iff)
qed

lemma or_less_256:
  fixes a b :: nat
  shows "a < 256 \<Longrightarrow> b < 256 \<Longrightarrow> a OR b < 256"
  using or_less_exp_nat[of a 8 b] by simp

lemma drop_bit_128: "drop_bit b (128::nat) < 256"
proof -
  have "drop_bit b (128::nat) \<le> 128" by (simp add: drop_bit_eq_div)
  then show ?thesis by simp
qed

lemma mono_acc_less: "st_n st < 256 \<Longrightarrow> mono_acc d s g cur j i st < 256"
  by (simp add: mono_acc_def or_less_256 drop_bit_128)

lemma mono_pixel_n_less:
  "st_n st < 256 \<Longrightarrow> st_n (mono_pixel d w s g cur nxt nxt2 j i st) < 256"
  by (simp add: mono_pixel_sel mono_acc_less)

lemma mono_cols_n_less: "st_n st < 256 \<Longrightarrow> st_n (mono_cols d w s g j st i) < 256"
  unfolding mono_cols_def
  by (rule fold_inv[where P = "\<lambda>s. st_n s < 256"]) (simp_all add: mono_pixel_n_less mono_row_start_def)

lemma mono_row_n_less: "st_n st < 256 \<Longrightarrow> st_n (mono_row d w s g j st) < 256"
  by (simp add: mono_row_eq mono_cols_n_less)

lemma mono_rows_n_less: "st_n (mono_rows img s g j) < 256"
  unfolding mono_rows_def
  by (rule fold_inv[where P = "\<lambda>s. st_n s < 256"]) (simp_all add: mono_row_n_less mono_init_def)

lemma mono_accumulated_less: "mono_accumulated img s g j k < 256"
  unfolding mono_accumulated_def mono_before_def
  by (intro mono_acc_less mono_cols_n_less mono_rows_n_less)

lemma flushes_all: "flushes 8 W W = (W + 7) div 8" "flushes 2 W W = (W + 1) div 2"
  by (simp_all add: flushes_def)

lemma mono_row_run:
  "st_q (mono_row d w s g j st) = st_q st + (nat w + 7) div 8"
  "st_r (mono_row d w s g j st) =
     fold (\<lambda>k r. r[st_q st + k :=
            (let a = mono_acc d s g (errorBuffer st ! 0) j (flush_col 8 (nat w) k)
                       (mono_cols d w s g j st (flush_col 8 (nat w) k))
             in (if a = 16 then 32 else a) mod 256)])
       [0..<(nat w + 7) div 8] (st_r st)"
  using mono_cols_run[of "nat w" w d s g j st] by (simp_all add: mono_row_eq flushes_all)

lemma mono_rows_run:
  fixes img s g
  defines "K \<equiv> (nat (width img) + 7) div 8"
  shows "st_q (mono_rows img s g j) = j * K"
    and "length (st_r (mono_rows img s g j)) = nat (mono_targetSize (width img) (height img))"
    and "j' < j \<Longrightarrow> k < K \<Longrightarrow> j' * K + k < nat (mono_targetSize (width img) (height img)) \<Longrightarrow>
          st_r (mono_rows img s g j) ! (j' * K + k) =
            (if mono_accumulated img s g j' k = 16 then 32 else mono_accumulated img s g j' k)"
proof -
  let ?st0 = "mono_init (width img) (mono_targetSize (width img) (height img))"
  let ?v = "\<lambda>j k st. (let a = mono_acc (data img) s g (errorBuffer st ! 0) j (flush_col 8 (nat (width img)) k)
                       (mono_cols (data img) (width img) s g j st (flush_col 8 (nat (width img)) k))
             in (if a = 16 then 32 else a) mod 256)"
  have *: "st_q (fold (mono_row (data img) (width img) s g) [0..<j] ?st0) = st_q ?st0 + j * K \<and>
         length (st_r (fold (mono_row (data img) (width img) s g) [0..<j] ?st0)) = length (st_r ?st0) \<and>
         (\<forall>j'<j. \<forall>k<K. st_q ?st0 + j' * K + k < length (st_r ?st0) \<longrightarrow>
            st_r (fold (mono_row (data img) (width img) s g) [0..<j] ?st0) ! (st_q ?st0 + j' * K + k) =
              ?v j' k (fold (mono_row (data img) (width img) s g) [0..<j'] ?st0))"
    by (rule rows_run[where Q = st_q and R = st_r and v = ?v]) (simp_all add: mono_row_run K_def)
  have i0: "st_q ?st0 = 0" "length (st_r ?st0) = nat (mono_targetSize (width img) (height img))"
    by (simp_all add: mono_init_def)
  show "st_q (mono_rows img s g j) = j * K" using * by (simp add: mono_rows_def i0)
  show "length (st_r (mono_rows img s g j)) = nat (mono_targetSize (width img) (height img))"
    using * by (simp add: mono_rows_def i0)
  show "st_r (mono_rows img s g j) ! (j' * K + k) =
            (if mono_accumulated img s g j' k = 16 then 32 else mono_accumulated img s g j' k)"
    if "j' < j" "k < K" "j' * K + k < nat (mono_targetSize (width img) (height img))"
  proof -
    have "st_r (mono_rows img s g j) ! (j' * K + k) = ?v j' k (mono_rows img s g j')"
      using * that by (simp add: mono_rows_def i0)
    also have "\<dots> = (if mono_accumulated img s g j' k = 16 then 32 else mono_accumulated img s g j' k) mod 256"
      by (simp add: mono_accumulated_def mono_before_def Let_def)
    also have "\<dots> = (if mono_accumulated img s g j' k = 16 then 32 else mono_accumulated img s g j' k)"
      using mono_accumulated_less[of img s g j' k] by simp
    finally show ?thesis .
  qed
qed

lemma mono_accumulated_n_at:
  "mono_accumulated img s g j k = mono_n_at img s g j (flush_col 8 (nat (width img)) k)"
  by (simp add: mono_accumulated_def mono_n_at_def)

lemma nat_ceil8: "0 \<le> w \<Longrightarrow> nat ((w + 7) div 8) = (nat w + 7) div 8"
  by (simp add: nat_div_distrib nat_add_distrib)

lemma nat_ceil2: "0 \<le> w \<Longrightarrow> nat ((w + 1) div 2) = (nat w + 1) div 2"
  by (simp add: nat_div_distrib nat_add_distrib)

lemma mono_targetSize_ok:
  assumes "dims_ok img"
  shows "mono_targetSize (width img) (height img) = (width img + 7) div 8 * height img"
    and "0 \<le> mono_targetSize (width img) (height img)"
    and "nat (mono_targetSize (width img) (height img)) = (nat (width img) + 7) div 8 * nat (height img)"
proof -
  from assms have w: "0 \<le> width img" "width img + 7 < 2 ^ 31" and h: "0 \<le> height img"
    by (simp_all add: dims_ok_def)
  show e: "mono_targetSize (width img) (height img) = (width img + 7) div 8 * height img"
    using w by (simp add: mono_targetSize_def sshr32_id)
  have c: "0 \<le> (width img + 7) div 8" using w by simp
  show "0 \<le> mono_targetSize (width img) (height img)" unfolding e using c h by simp
  show "nat (mono_targetSize (width img) (height img)) = (nat (width img) + 7) div 8 * nat (height img)"
    unfolding e using c h w by (simp add: nat_mult_distrib nat_ceil8)
qed

lemma index_in_rows:
  fixes j k K H :: nat
  assumes "j < H" "k < K"
  shows "j * K + k < K * H"
proof -
  have "j * K + k < Suc j * K" using assms(2) by simp
  also have "\<dots> \<le> H * K" using assms(1) by (intro mult_le_mono1) simp
  finally show ?thesis by (simp add: mult.commute)
qed

lemma toMonoImage_ok:
  assumes "mono_accepts cap img"
  shows "toMonoImage cap img s g = Inr (st_r (mono_rows img s g (nat (height img))))"
  using assms by (simp add: toMonoImage_def Let_def mono_rows_def mono_accepts_def)

lemma mono_byte:
  assumes "dims_ok img" "j < nat (height img)" "k < (nat (width img) + 7) div 8"
  shows "st_r (mono_rows img s g (nat (height img))) ! (j * ((nat (width img) + 7) div 8) + k) =
           (if mono_accumulated img s g j k = 16 then 32 else mono_accumulated img s g j k)"
  using assms mono_targetSize_ok(3)[OF assms(1)] index_in_rows[OF assms(2,3)]
  by (intro mono_rows_run(3)) simp_all

text \<open>
  C4. At every flush point of toMonoImage (a column \<open>i\<close> with \<open>i & 7 = 7\<close>, or the last
  column of a row), for every pixel data, dither mode and gamma, the byte written to the
  output is 32 when the accumulated byte \<^verbatim>\<open>n\<close> is 16, and the accumulated byte itself
  otherwise. The conversion is one that runs: the engine, whatever its limit \<open>cap\<close>, accepts
  the allocations.
\<close>

theorem mono_flush_substitution:
  assumes "dims_ok img" "mono_accepts cap img" "j < nat (height img)" "i < nat (width img)"
    and "i AND 7 = 7 \<or> int i = width img - 1"
  shows "\<exists>out. toMonoImage cap img s g = Inr out \<and>
           out ! (j * ((nat (width img) + 7) div 8) + i div 8) =
             (if mono_n_at img s g j i = 16 then 32 else mono_n_at img s g j i)"
proof -
  let ?W = "nat (width img)"
  have f: "i mod 8 = 8 - 1 \<or> Suc i = ?W" using assms(4,5) by (auto simp: and7)
  have S: "Suc i \<le> ?W" using assms(4) by simp
  have fc: "flush_col 8 ?W (i div 8) = i"
    using flushes_flush(2)[OF _ S f] assms(4) by (simp add: flushes_def)
  have "i div 8 \<le> (?W - 1) div 8" using assms(4) by (intro div_le_mono) simp
  also have "\<dots> < (?W + 7) div 8" using assms(4) by (simp add: div_less_iff_less_mult) 
  finally have k: "i div 8 < (?W + 7) div 8" .
  show ?thesis
    using mono_byte[OF assms(1,3) k, of s g] toMonoImage_ok[OF assms(2), of s g]
    by (simp add: mono_accumulated_n_at fc)
qed

lemmas js_defs = rd_def lum_def sample_def jsub_def

lemma upt3: "[0..<3] = [0, 1, 2]"
  by (simp add: upt_rec)

theorem mono_flush_substitution_witness:
  "dims_ok \<lparr>data = [255, 255, 255, 255, 255, 255, 255, 255, 255, 255, 255, 255, 0, 0, 0, 255],
            width = 4, height = 1\<rparr> \<and>
   mono_accepts 4294967295
           \<lparr>data = [255, 255, 255, 255, 255, 255, 255, 255, 255, 255, 255, 255, 0, 0, 0, 255],
            width = 4, height = 1\<rparr> \<and>
   mono_n_at \<lparr>data = [255, 255, 255, 255, 255, 255, 255, 255, 255, 255, 255, 255, 0, 0, 0, 255],
            width = 4, height = 1\<rparr> 0 (Fin 1) 0 3 = 16 \<and>
   (\<exists>out. toMonoImage 4294967295
           \<lparr>data = [255, 255, 255, 255, 255, 255, 255, 255, 255, 255, 255, 255, 0, 0, 0, 255],
            width = 4, height = 1\<rparr> 0 (Fin 1) = Inr out \<and> out ! 0 = 32)"
proof -
  let ?img = "\<lparr>data = [255, 255, 255, 255, 255, 255, 255, 255, 255, 255, 255, 255, 0, 0, 0, 255],
            width = 4, height = 1\<rparr>"
  have d: "dims_ok ?img" by (simp add: dims_ok_def)
  have a: "mono_accepts 4294967295 ?img"
    by (simp add: mono_accepts_def alloc_fails_def mono_targetSize_def sshr32_def)
  have n: "mono_n_at ?img 0 (Fin 1) 0 3 = 16"
    by (simp add: mono_n_at_def mono_before_def mono_rows_def mono_cols_def upt3 mono_pixel_sel
        mono_acc_def isDark_def mono_v_def mono_t_def bayer_def js_defs mono_row_start_def
        mono_init_def and7)
  have "\<exists>out. toMonoImage 4294967295 ?img 0 (Fin 1) = Inr out \<and> out ! 0 = 32"
    using mono_flush_substitution [OF d a, of 0 3 0 "Fin 1"] by (simp add: n)
  with d a n show ?thesis by simp
qed

section \<open>Failures and missing checks\<close>

lemma toMonoImage_cases:
  "toMonoImage cap img s g =
     (if alloc_fails cap 1 (mono_targetSize (width img) (height img)) \<or>
         alloc_fails cap 4 (width img + 4) then Inl RangeError
      else Inr (mono_output img s g))"
  by (simp add: toMonoImage_def Let_def mono_output_def mono_rows_def)

lemma toGrayImage_cases:
  "toGrayImage cap img g =
     (if alloc_fails cap 1 (gray_targetSize (width img) (height img)) then Inl RangeError
      else Inr (gray_output img g))"
  by (simp add: toGrayImage_def Let_def gray_output_def gray_rows_def)

lemma mono_output_length:
  "length (mono_output img s g) = nat (mono_targetSize (width img) (height img))"
  by (simp add: mono_output_def mono_rows_run(2))



lemma length_thermal: "length thermal = 256"
  by (simp add: thermal_def)

lemma thermal_0: "thermal ! 0 = 0"
  by (simp add: thermal_def)

lemma thermal_255: "thermal ! 255 = 255"
  by (simp add: thermal_def)

lemma thermal_at_0: "thermal_at 0 = Some 0"
  by (simp add: thermal_at_def length_thermal thermal_0)

lemma thermal_at_255: "thermal_at 255 = Some 255"
  by (simp add: thermal_at_def length_thermal thermal_255)

lemma upt1: "[0..<1] = [0]"
  by (simp add: upt_rec)



text \<open>
  C8 (as amended). toMonoImage and toGrayImage do not check the gamma and never fail with
  InvalidGamma: for every gamma, zero, negative and non-finite ones included, a well-formed
  pixel buffer that the conversion can allocate for (a width below \<open>2\<^sup>3\<^sup>1 - 7\<close> for
  toMonoImage and below \<open>2\<^sup>3\<^sup>1 - 1\<close> for toGrayImage, and allocations that the engine
  accepts) is converted to a buffer of the full length.
\<close>

theorem gamma_not_checked:
  "toMonoImage cap img s g \<noteq> Inl InvalidGamma \<and> toGrayImage cap img g \<noteq> Inl InvalidGamma \<and>
   (valid_image img \<and> width img < 2 ^ 31 - 7 \<and> mono_accepts cap img \<longrightarrow>
      (\<exists>out. toMonoImage cap img s g = Inr out \<and>
          int (length out) = \<lceil>real_of_int (width img) / 8\<rceil> * height img)) \<and>
   (valid_image img \<and> width img < 2 ^ 31 - 1 \<and> gray_accepts cap img \<longrightarrow>
      (\<exists>out. toGrayImage cap img g = Inr out \<and>
          int (length out) = \<lceil>real_of_int (width img) / 2\<rceil> * height img))"
proof -
  have 1: "toMonoImage cap img s g \<noteq> Inl InvalidGamma"
    by (simp add: toMonoImage_cases)
  have 2: "toGrayImage cap img g \<noteq> Inl InvalidGamma"
    by (simp add: toGrayImage_cases)
  have 3: "\<exists>out. toMonoImage cap img s g = Inr out \<and>
          int (length out) = \<lceil>real_of_int (width img) / 8\<rceil> * height img"
    if v: "valid_image img" and b: "width img < 2 ^ 31 - 7" and a: "mono_accepts cap img"
  proof -
    from v have w: "0 \<le> width img" by (simp add: valid_image_def)
    obtain out where o: "toMonoImage cap img s g = Inr out"
      using toMonoImage_returns[OF a] by blast
    show ?thesis
      using o toMonoImage_length[OF o] mono_targetSize_valid[OF w b] by simp
  qed
  have 4: "\<exists>out. toGrayImage cap img g = Inr out \<and>
          int (length out) = \<lceil>real_of_int (width img) / 2\<rceil> * height img"
    if v: "valid_image img" and b: "width img < 2 ^ 31 - 1" and a: "gray_accepts cap img"
  proof -
    from v have w: "0 \<le> width img" by (simp add: valid_image_def)
    obtain out where o: "toGrayImage cap img g = Inr out"
      using toGrayImage_returns[OF a] by blast
    show ?thesis
      using o toGrayImage_length[OF o] gray_targetSize_valid[OF w b] by simp
  qed
  from 1 2 3 4 show ?thesis by blast
qed

theorem invalid_gamma_counterexample:
  "toMonoImage 4294967295 \<lparr>data = [255, 255, 255, 255], width = 1, height = 1\<rparr> 0 (Fin 0) = Inr [0] \<and>
   toGrayImage 4294967295 \<lparr>data = [255, 255, 255, 255], width = 1, height = 1\<rparr> (Fin 0) = Inr [0] \<and>
   toGrayImage 4294967295 \<lparr>data = [255, 255, 255, 255], width = 1, height = 1\<rparr> (Fin 1) = Inr [240]"
proof -
  have "toMonoImage 4294967295 \<lparr>data = [255, 255, 255, 255], width = 1, height = 1\<rparr> 0 (Fin 0) = Inr [0]"
    by (simp add: toMonoImage_def mono_targetSize_def sshr32_def alloc_fails_def
        mono_row_eq mono_cols_def mono_row_start_def mono_init_def upt1
        mono_pixel_sel mono_acc_def isDark_def mono_v_def mono_t_def bayer_def js_defs)
  moreover have "toGrayImage 4294967295 \<lparr>data = [255, 255, 255, 255], width = 1, height = 1\<rparr> (Fin 0) = Inr [0]"
    by (simp add: toGrayImage_def gray_targetSize_def sshr32_def alloc_fails_def
        gray_row_def gray_init_def upt1 gray_pixel_sel
        gray_level_def level_of_def thermal_at_0 quantize_def js_defs)
  moreover have "toGrayImage 4294967295 \<lparr>data = [255, 255, 255, 255], width = 1, height = 1\<rparr> (Fin 1) = Inr [240]"
    by (simp add: toGrayImage_def gray_targetSize_def sshr32_def alloc_fails_def
        gray_row_def gray_init_def upt1 gray_pixel_sel m4_def
        gray_level_def level_of_def thermal_at_255 quantize_def js_defs)
  ultimately show ?thesis by simp
qed

theorem gamma_not_checked_witness:
  "valid_image \<lparr>data = [255, 255, 255, 255], width = 1, height = 1\<rparr> \<and>
   mono_accepts 4294967295 \<lparr>data = [255, 255, 255, 255], width = 1, height = 1\<rparr> \<and>
   gray_accepts 4294967295 \<lparr>data = [255, 255, 255, 255], width = 1, height = 1\<rparr> \<and>
   (\<exists>out. toMonoImage 4294967295 \<lparr>data = [255, 255, 255, 255], width = 1, height = 1\<rparr> 0 (Fin 0) = Inr out \<and>
      int (length out) = \<lceil>real_of_int 1 / 8\<rceil> * 1) \<and>
   (\<exists>out. toGrayImage 4294967295 \<lparr>data = [255, 255, 255, 255], width = 1, height = 1\<rparr> (Fin 0) = Inr out \<and>
      int (length out) = \<lceil>real_of_int 1 / 2\<rceil> * 1)"
proof -
  have v: "valid_image \<lparr>data = [255, 255, 255, 255], width = 1, height = 1\<rparr>"
    by (simp add: valid_image_def)
  have a: "mono_accepts 4294967295 \<lparr>data = [255, 255, 255, 255], width = 1, height = 1\<rparr>"
    by (simp add: mono_accepts_def alloc_fails_def mono_targetSize_def sshr32_def)
  have b: "gray_accepts 4294967295 \<lparr>data = [255, 255, 255, 255], width = 1, height = 1\<rparr>"
    by (simp add: gray_accepts_def alloc_fails_def gray_targetSize_def sshr32_def)
  show ?thesis
    using v a b
      gamma_not_checked [of 4294967295 "\<lparr>data = [255, 255, 255, 255], width = 1, height = 1\<rparr>" 0 "Fin 0"]
    by simp
qed

section \<open>The error buffers\<close>

lemma length_bump: "length (bump e hp b) = length (hp b)"
  by (cases e) (simp add: bump_def)

lemma length_fold_bump: "length (fold bump es hp b) = length (hp b)"
  by (induction es arbitrary: hp) (simp_all add: length_bump)

lemma length_diffuse: "length (diffuse s cur nxt nxt2 i err hp b) = length (hp b)"
  by (simp add: diffuse_def Let_def length_fold_bump length_bump)

lemma rdf_bump:
  "rdf (bump (a, k, x) hp b) m =
     (if a = b \<and> k = m \<and> m < length (hp b) then jadd (rdf (hp b) m) x else rdf (hp b) m)"
  by (auto simp: bump_def rdf_def)

lemma mono_row_errorBuffer:
  "errorBuffer (mono_row d w s g j st) = tl (errorBuffer st) @ [errorBuffer st ! 2]"
  by (simp add: mono_row_eq)

lemma mono_rows_Suc:
  "mono_rows img s g (Suc j) = mono_row (data img) (width img) s g j (mono_rows img s g j)"
  by (simp add: mono_rows_def)

lemma mono_rows_0:
  "mono_rows img s g 0 = mono_init (width img) (mono_targetSize (width img) (height img))"
  by (simp add: mono_rows_def)

lemma errorBuffer_rows_0: "errorBuffer (mono_rows img s g 0) = [0, 1, 2]"
  by (simp add: mono_rows_0 mono_init_def)

lemma errorBuffer_rows_1: "errorBuffer (mono_rows img s g (Suc 0)) = [1, 2, 2]"
  by (simp add: mono_rows_Suc mono_row_errorBuffer errorBuffer_rows_0)

lemma errorBuffer_rows_2: "errorBuffer (mono_rows img s g (Suc (Suc j))) = [2, 2, 2]"
proof (induction j)
  case 0
  show ?case by (simp add: mono_rows_Suc[of _ _ _ "Suc 0"] mono_row_errorBuffer errorBuffer_rows_1)
next
  case (Suc j)
  show ?case by (simp add: mono_rows_Suc[of _ _ _ "Suc (Suc j)"] mono_row_errorBuffer Suc)
qed

text \<open>The lengths of the three buffers never change.\<close>

lemma mono_pixel_heap_length:
  "length (st_heap (mono_pixel d w s g cur nxt nxt2 j i st) b) = length (st_heap st b)"
  by (simp add: mono_pixel_sel length_diffuse)

lemma mono_cols_heap_length:
  "length (st_heap (mono_cols d w s g j st i) b) = length (st_heap st b)"
proof -
  have "length (st_heap (mono_cols d w s g j st i) b) = length (st_heap (mono_row_start st) b)"
    unfolding mono_cols_def
    by (rule fold_pres[where F = "\<lambda>s. length (st_heap s b)"]) (rule mono_pixel_heap_length)
  then show ?thesis by (simp add: mono_row_start_def)
qed

lemma mono_rows_heap_length:
  "length (st_heap (mono_rows img s g j) b) = (if b < 3 then nat (width img + 4) else 0)"
proof (induction j)
  case 0
  show ?case by (simp add: mono_rows_0 mono_init_def)
next
  case (Suc j)
  then show ?case by (simp add: mono_rows_Suc mono_row_eq mono_cols_heap_length)
qed

lemma mono_cols_p: "st_p (mono_cols d w s g j st i) = st_p st + 4 * i"
  unfolding mono_cols_def
  by (induction i) (simp_all add: mono_pixel_sel mono_row_start_def)

lemma mono_rows_p: "st_p (mono_rows img s g j) = 4 * (j * nat (width img))"
  by (induction j) (simp_all add: mono_rows_0 mono_init_def mono_rows_Suc mono_row_eq mono_cols_p algebra_simps)

lemma mono_before_p: "st_p (mono_before img s g j i) = 4 * (j * nat (width img) + i)"
  by (simp add: mono_before_def mono_cols_p mono_rows_p)

lemma rdf_row_start:
  "rdf (st_heap (mono_row_start st) b) m =
     (if b = errorBuffer st ! 2 then (if m < length (st_heap st b) then Fin 0 else NaN)
      else rdf (st_heap st b) m)"
  by (simp add: mono_row_start_def rdf_def)

lemma length_row_start: "length (st_heap (mono_row_start st) b) = length (st_heap st b)"
  by (simp add: mono_row_start_def)

lemma rdf_init:
  "rdf (st_heap (mono_init w sz) b) m = (if b < 3 \<and> m < nat (w + 4) then Fin 0 else NaN)"
  by (simp add: mono_init_def rdf_def)

lemma row_start_sel:
  "st_n (mono_row_start st) = st_n st" "st_p (mono_row_start st) = st_p st"
  "st_q (mono_row_start st) = st_q st" "st_r (mono_row_start st) = st_r st"
  "errorBuffer (mono_row_start st) = errorBuffer st"
  by (simp_all add: mono_row_start_def)

lemma init_sel:
  "st_n (mono_init w sz) = 0" "st_p (mono_init w sz) = 0" "st_q (mono_init w sz) = 0"
  "st_r (mono_init w sz) = replicate (nat sz) 0" "errorBuffer (mono_init w sz) = [0, 1, 2]"
  by (simp_all add: mono_init_def)

text \<open>
  C1 (the code at a failing input). A 1x3 image of grey pixels 60, 100, 100 under
  Floyd-Steinberg with gamma 1. After the first rotation slots 1 and 2 of
  \<^verbatim>\<open>errorBuffer\<close> hold the same buffer and after the second all three do, so the slots do
  not stay distinct. The error 2375/64 that row 1 left for row 2 is erased by the
  \<^verbatim>\<open>nxt2.fill(0)\<close> of row 2, and the third pixel, which that error would have made
  light, comes out dark.
\<close>

theorem rotation_erases_pending_error:
  "errorBuffer (mono_rows \<lparr>data = [60, 60, 60, 255, 100, 100, 100, 255, 100, 100, 100, 255],
      width = 1, height = 3\<rparr> 1 (Fin 1) (Suc 0)) = [1, 2, 2] \<and>
   errorBuffer (mono_rows \<lparr>data = [60, 60, 60, 255, 100, 100, 100, 255, 100, 100, 100, 255],
      width = 1, height = 3\<rparr> 1 (Fin 1) (Suc (Suc 0))) = [2, 2, 2] \<and>
   rdf (st_heap (mono_rows \<lparr>data = [60, 60, 60, 255, 100, 100, 100, 255, 100, 100, 100, 255],
      width = 1, height = 3\<rparr> 1 (Fin 1) (Suc (Suc 0))) 2) 2 = Fin (2375 / 64) \<and>
   rdf (st_heap (mono_row_start (mono_rows \<lparr>data = [60, 60, 60, 255, 100, 100, 100, 255, 100, 100, 100, 255],
      width = 1, height = 3\<rparr> 1 (Fin 1) (Suc (Suc 0)))) 2) 2 = Fin 0 \<and>
   toMonoImage 4294967295 \<lparr>data = [60, 60, 60, 255, 100, 100, 100, 255, 100, 100, 100, 255],
      width = 1, height = 3\<rparr> 1 (Fin 1) = Inr [128, 128, 128]"
proof -
  define d :: "nat list" where "d = [60, 60, 60, 255, 100, 100, 100, 255, 100, 100, 100, 255]"
  define img where "img = \<lparr>data = d, width = 1, height = 3\<rparr>"
  define S0 where "S0 = mono_rows img 1 (Fin 1) 0"
  define S1 where "S1 = mono_rows img 1 (Fin 1) (Suc 0)"
  define S2 where "S2 = mono_rows img 1 (Fin 1) (Suc (Suc 0))"
  define S3 where "S3 = mono_rows img 1 (Fin 1) (Suc (Suc (Suc 0)))"
  have step: "S1 = mono_row d 1 1 (Fin 1) 0 S0" "S2 = mono_row d 1 1 (Fin 1) (Suc 0) S1"
    "S3 = mono_row d 1 1 (Fin 1) (Suc (Suc 0)) S2"
    by (simp_all add: S0_def S1_def S2_def S3_def mono_rows_Suc img_def)
  have smp: "sample d 0 (Fin 1) = Fin 60" "sample d 4 (Fin 1) = Fin 100"
    "sample d 8 (Fin 1) = Fin 100"
    by (simp_all add: d_def js_defs)
  have len: "length (st_heap S0 b) = (if b < 3 then 5 else 0)"
    "length (st_heap S1 b) = (if b < 3 then 5 else 0)"
    "length (st_heap S2 b) = (if b < 3 then 5 else 0)" for b
    by (simp_all add: S0_def S1_def S2_def mono_rows_heap_length img_def)
  note ev = mono_row_eq mono_cols_def upt1 mono_pixel_sel diffuse_def rdf_bump length_bump
    rdf_row_start length_row_start row_start_sel mono_err_def mono_v_def isDark_def mono_t_def
    mono_acc_def jsub_def smp len
  have 0: "st_n S0 = 0" "st_p S0 = 0" "st_q S0 = 0" "st_r S0 = [0, 0, 0]"
    "errorBuffer S0 = [0, 1, 2]" "\<And>b m. rdf (st_heap S0 b) m = (if b < 3 \<and> m < 5 then Fin 0 else NaN)"
    by (simp_all add: S0_def mono_rows_0 init_sel rdf_init img_def mono_targetSize_def sshr32_def
        numeral_3_eq_3)
  have 1: "st_n S1 = 0" "st_p S1 = 4" "st_q S1 = 1" "st_r S1 = [128, 0, 0]"
    "errorBuffer S1 = [1, 2, 2]"
    "\<And>m. rdf (st_heap S1 (Suc 0)) m =
       (if m = 1 then Fin (45 / 4) else if m = 2 then Fin (75 / 4)
        else if m = 3 then Fin (15 / 4) else if m < 5 then Fin 0 else NaN)"
    by (simp_all add: step(1) ev 0)
  have 2: "st_n S2 = 0" "st_p S2 = 8" "st_q S2 = 2" "st_r S2 = [128, 128, 0]"
    "errorBuffer S2 = [2, 2, 2]" "rdf (st_heap S2 2) 2 = Fin (2375 / 64)"
    by (simp_all add: step(2) ev 1)
  have 3: "rdf (st_heap (mono_row_start S2) 2) 2 = Fin 0"
    by (simp add: ev 2)
  have 4: "st_r S3 = [128, 128, 128]"
    by (simp add: step(3) ev 2)
  have "toMonoImage 4294967295 img 1 (Fin 1) = Inr (st_r S3)"
    by (simp add: toMonoImage_cases mono_output_def S3_def img_def mono_targetSize_def sshr32_def
        alloc_fails_def numeral_3_eq_3)
  with 1(5) 2(5,6) 3 4 show ?thesis
    unfolding S1_def S2_def img_def d_def by simp
qed

lemma mono_before_0: "mono_before img s g j 0 = mono_row_start (mono_rows img s g j)"
  by (simp add: mono_before_def mono_cols_def)

lemma mono_before_Suc:
  "mono_before img s g j (Suc i) =
     mono_pixel (data img) (width img) s g (errorBuffer (mono_rows img s g j) ! 0)
       (errorBuffer (mono_rows img s g j) ! 1) (errorBuffer (mono_rows img s g j) ! 2) j i
       (mono_before img s g j i)"
  by (simp add: mono_before_def mono_cols_def)

text \<open>
  C5 (the code at a failing input). A 2x3 image of grey pixels 100 under Floyd-Steinberg with
  gamma 1, at the first pixel of row 2. The three slots hold the same buffer, so the shares
  7/16 for \<open>(row, col + 1)\<close> and 1/16 for \<open>(row + 1, col + 1)\<close> of the error 100 are added to
  the same cell: the cell of \<open>(row, col + 1)\<close> goes from 0 to 50, not to 43.75. What the
  kernel lines do slot by slot is \<open>diffuse_shares\<close> below.
\<close>

theorem kernel_shares_merge:
  "errorBuffer (mono_rows \<lparr>data = [100, 100, 100, 255, 100, 100, 100, 255, 100, 100, 100, 255,
        100, 100, 100, 255, 100, 100, 100, 255, 100, 100, 100, 255], width = 2, height = 3\<rparr> 1 (Fin 1)
      (Suc (Suc 0))) = [2, 2, 2] \<and>
   mono_err [100, 100, 100, 255, 100, 100, 100, 255, 100, 100, 100, 255,
        100, 100, 100, 255, 100, 100, 100, 255, 100, 100, 100, 255] 1 (Fin 1) 2 2 0
      (mono_before \<lparr>data = [100, 100, 100, 255, 100, 100, 100, 255, 100, 100, 100, 255,
        100, 100, 100, 255, 100, 100, 100, 255, 100, 100, 100, 255], width = 2, height = 3\<rparr> 1 (Fin 1) 2 0) = Fin 100 \<and>
   rdf (st_heap (mono_before \<lparr>data = [100, 100, 100, 255, 100, 100, 100, 255, 100, 100, 100, 255,
        100, 100, 100, 255, 100, 100, 100, 255, 100, 100, 100, 255], width = 2, height = 3\<rparr> 1 (Fin 1) 2 0) 2) 3
      = Fin 0 \<and>
   rdf (st_heap (mono_before \<lparr>data = [100, 100, 100, 255, 100, 100, 100, 255, 100, 100, 100, 255,
        100, 100, 100, 255, 100, 100, 100, 255, 100, 100, 100, 255], width = 2, height = 3\<rparr> 1 (Fin 1) 2 (Suc 0)) 2) 3
      = Fin 50"
proof -
  define d :: "nat list" where
    "d = [100, 100, 100, 255, 100, 100, 100, 255, 100, 100, 100, 255,
          100, 100, 100, 255, 100, 100, 100, 255, 100, 100, 100, 255]"
  define img where "img = \<lparr>data = d, width = 2, height = 3\<rparr>"
  define S where "S = mono_rows img 1 (Fin 1) 2"
  define B where "B = mono_before img 1 (Fin 1) 2 0"
  have eb: "errorBuffer S = [2, 2, 2]"
    unfolding S_def using errorBuffer_rows_2[of img 1 "Fin 1" 0] by (simp add: numeral_2_eq_2)
  have B: "B = mono_row_start S" by (simp add: B_def S_def mono_before_0)
  have len: "length (st_heap S b) = (if b < 3 then 6 else 0)" for b
    by (simp add: S_def mono_rows_heap_length img_def)
  have p: "st_p B = 16" by (simp add: B_def mono_before_p img_def)
  have smp: "sample d 16 (Fin 1) = Fin 100"
    by (simp add: js_defs d_def)
  have rdB: "rdf (st_heap B 2) m = (if m < 6 then Fin 0 else NaN)" for m
    by (simp add: B rdf_row_start eb len)
  have lenB: "length (st_heap B b) = (if b < 3 then 6 else 0)" for b
    by (simp add: B length_row_start len)
  have err: "mono_err d 1 (Fin 1) 2 2 0 B = Fin 100"
    by (simp add: mono_err_def mono_v_def isDark_def mono_t_def p smp rdB jsub_def)
  have nxt: "mono_before img 1 (Fin 1) 2 (Suc 0) =
      mono_pixel d 2 1 (Fin 1) 2 2 2 2 0 B"
    using eb by (simp add: mono_before_Suc B_def S_def img_def)
  have "rdf (st_heap (mono_before img 1 (Fin 1) 2 (Suc 0)) 2) 3 = Fin 50"
    by (simp add: nxt mono_pixel_sel diffuse_def rdf_bump length_bump err rdB lenB)
  with eb err rdB[of 3] show ?thesis
    unfolding S_def B_def img_def d_def by (simp add: numeral_2_eq_2)
qed

section \<open>toGrayImage: levels and stored bytes\<close>

lemma or_nibbles:
  fixes a b :: nat
  assumes "b < 16"
  shows "16 * a OR b = 16 * a + b"
proof -
  have b: "take_bit 4 b = b" using assms by (simp add: take_bit_nat_eq_self)
  have "push_bit 4 a + take_bit 4 b = push_bit 4 a OR take_bit 4 b"
    by (rule disjunctive_add) (auto simp: bit_push_bit_iff bit_take_bit_iff)
  then show ?thesis by (simp add: b push_bit_eq_mult mult.commute)
qed

lemma thermal_le: "list_all (\<lambda>v. v \<le> 255) thermal"
  by (simp add: thermal_def)

lemma thermal_sorted: "sorted thermal"
  unfolding thermal_def by (simp only: sorted2 sorted1 simp_thms) simp

lemma thermal_nth_le: "k < 256 \<Longrightarrow> thermal ! k \<le> 255"
  using thermal_le by (simp add: list_all_length length_thermal)

lemma thermal_at_le: "thermal_at k = Some v \<Longrightarrow> v \<le> 255"
  by (auto simp: thermal_at_def length_thermal thermal_nth_le split: if_splits)

lemma quantize_le:
  assumes "v \<le> 255"
  shows "quantize m v \<le> 15"
proof (cases "v = 255")
  case True
  then show ?thesis by (simp add: quantize_def)
next
  case False
  with assms have "v \<le> 254" by simp
  then have "v div 17 \<le> 254 div 17" by (rule div_le_mono)
  then have "v div 17 \<le> 14" by simp
  then show ?thesis by (simp add: quantize_def Let_def)
qed

lemma level_of_le: "level_of m x \<le> 15"
  by (auto simp: level_of_def quantize_le thermal_at_le split: option.splits)

lemma gray_level_le: "gray_level d g j i p \<le> 15"
  by (simp add: gray_level_def level_of_le)

lemma gray_cols_Suc:
  "gray_cols d w g j st (Suc i) = gray_pixel d w g j i (gray_cols d w g j st i)"
  by (simp add: gray_cols_def)

lemma gray_cols_p: "gs_p (gray_cols d w g j st i) = gs_p st + 4 * i"
  by (induction i) (simp_all add: gray_cols_Suc gray_pixel_sel, simp add: gray_cols_def)

lemma shift_odd: "i mod 2 = Suc 0 \<Longrightarrow> push_bit (push_bit 2 (1 - i mod 2)) (x::nat) = x"
  by simp

lemma gray_cols_n:
  assumes "gs_n st = 0" "i \<le> nat w"
  shows "gs_n (gray_cols d w g j st i) =
           (if odd i \<and> i < nat w then 16 * gray_level d g j (i - 1) (gs_p st + 4 * (i - 1)) else 0)"
  using assms(2)
proof (induction i)
  case 0
  show ?case using assms(1) by (simp add: gray_cols_def)
next
  case (Suc i)
  then have IH: "gs_n (gray_cols d w g j st i) =
      (if odd i \<and> i < nat w then 16 * gray_level d g j (i - 1) (gs_p st + 4 * (i - 1)) else 0)"
    by simp
  show ?case
  proof (cases "even i")
    case True
    then have m: "i mod 2 = 0" "Suc i mod 2 = Suc 0" by (simp_all add: even_iff_mod_2_eq_zero mod_Suc)
    show ?thesis using IH Suc.prems True
      by (simp add: gray_cols_Suc gray_pixel_sel gray_cols_p push_bit_eq_mult m)
  next
    case False
    then have m: "i mod 2 = Suc 0" by (simp add: odd_iff_mod_2_eq_one)
    show ?thesis using False
      by (simp add: gray_cols_Suc gray_pixel_sel m)
  qed
qed

text \<open>The byte that toGrayImage stores for the pair \<open>k\<close> of a row.\<close>

lemma gray_pair:
  assumes n: "gs_n st = 0" and k: "k < (nat w + 1) div 2"
  defines "c \<equiv> flush_col 2 (nat w) k"
  shows "(gs_n (gray_cols d w g j st c) OR
           push_bit (push_bit 2 (1 - c mod 2)) (gray_level d g j c (gs_p (gray_cols d w g j st c)))) mod 256 =
         16 * gray_level d g j (2 * k) (gs_p st + 4 * (2 * k)) +
           (if 2 * k + 1 < nat w then gray_level d g j (2 * k + 1) (gs_p st + 4 * (2 * k + 1)) else 0)"
proof (cases "2 * k + 1 < nat w")
  case True
  then have c: "c = 2 * k + 1" by (simp add: c_def flush_col_def)
  have "gs_n (gray_cols d w g j st c) = 16 * gray_level d g j (2 * k) (gs_p st + 4 * (2 * k))"
    using True by (simp add: gray_cols_n[OF n] c)
  moreover have "16 * gray_level d g j (2 * k) (gs_p st + 4 * (2 * k)) +
       gray_level d g j (2 * k + 1) (gs_p st + 4 * (2 * k + 1)) < 256"
    using gray_level_le[of d g j "2 * k" "gs_p st + 4 * (2 * k)"]
      gray_level_le[of d g j "2 * k + 1" "gs_p st + 4 * (2 * k + 1)"] by simp
  moreover have "gray_level d g j (2 * k + 1) (gs_p st + 4 * (2 * k + 1)) < 16"
    using gray_level_le[of d g j "2 * k + 1" "gs_p st + 4 * (2 * k + 1)"] by simp
  moreover have "c mod 2 = Suc 0" by (simp add: c mod_Suc)
  ultimately show ?thesis using True
    by (simp only: shift_odd) (simp add: c gray_cols_p or_nibbles)
next
  case False
  with k have c: "c = 2 * k" by (auto simp: c_def flush_col_def)
  have w: "2 * k < nat w" using k by linarith
  have "gs_n (gray_cols d w g j st c) = 0"
    using w by (simp add: gray_cols_n[OF n] c)
  moreover have "16 * gray_level d g j (2 * k) (gs_p st + 4 * (2 * k)) < 256"
    using gray_level_le[of d g j "2 * k" "gs_p st + 4 * (2 * k)"] by simp
  moreover have "c mod 2 = 0" by (simp add: c)
  ultimately show ?thesis using False
    by (simp add: c gray_cols_p push_bit_eq_mult)
qed

lemma gray_cols_run:
  assumes "i \<le> nat w"
  shows "gs_q (gray_cols d w g j st i) = gs_q st + flushes 2 (nat w) i"
    and "gs_r (gray_cols d w g j st i) =
           fold (\<lambda>k r. r[gs_q st + k :=
                  (gs_n (gray_cols d w g j st (flush_col 2 (nat w) k)) OR
                     push_bit (push_bit 2 (1 - flush_col 2 (nat w) k mod 2))
                       (gray_level d g j (flush_col 2 (nat w) k)
                          (gs_p (gray_cols d w g j st (flush_col 2 (nat w) k))))) mod 256])
             [0..<flushes 2 (nat w) i] (gs_r st)"
proof -
  let ?out = "\<lambda>i st'. (gs_n st' OR push_bit (push_bit 2 (1 - i mod 2)) (gray_level d g j i (gs_p st'))) mod 256"
  have *: "gs_q (fold (gray_pixel d w g j) [0..<i] st) = gs_q st + flushes 2 (nat w) i \<and>
        gs_r (fold (gray_pixel d w g j) [0..<i] st) =
           fold (\<lambda>k r. r[gs_q st + k := ?out (flush_col 2 (nat w) k) (fold (gray_pixel d w g j) [0..<flush_col 2 (nat w) k] st)])
             [0..<flushes 2 (nat w) i] (gs_r st)"
    by (rule pack_run[where G = 2 and W = "nat w" and Q = gs_q and R = gs_r and out = ?out])
       (simp_all add: gray_pixel_sel assms)
  show "gs_q (gray_cols d w g j st i) = gs_q st + flushes 2 (nat w) i"
    using * by (simp add: gray_cols_def)
  show "gs_r (gray_cols d w g j st i) =
           fold (\<lambda>k r. r[gs_q st + k :=
                  (gs_n (gray_cols d w g j st (flush_col 2 (nat w) k)) OR
                     push_bit (push_bit 2 (1 - flush_col 2 (nat w) k mod 2))
                       (gray_level d g j (flush_col 2 (nat w) k)
                          (gs_p (gray_cols d w g j st (flush_col 2 (nat w) k))))) mod 256])
             [0..<flushes 2 (nat w) i] (gs_r st)"
    using * by (simp add: gray_cols_def)
qed

lemma gray_row_cols: "gray_row d w g j st = gray_cols d w g j st (nat w)"
  by (simp add: gray_row_def gray_cols_def)

lemma fold_upd_cong:
  assumes "\<And>k. k < K \<Longrightarrow> u k = v k"
  shows "fold (\<lambda>k r. r[q + k := u k]) [0..<K] r = fold (\<lambda>k r. r[q + k := v k]) [0..<K] r"
  using assms by (induction K) simp_all

lemma gray_row_run:
  assumes "gs_n st = 0"
  shows "gs_q (gray_row d w g j st) = gs_q st + (nat w + 1) div 2"
    and "gs_r (gray_row d w g j st) =
     fold (\<lambda>k r. r[gs_q st + k :=
            16 * gray_level d g j (2 * k) (gs_p st + 4 * (2 * k)) +
            (if 2 * k + 1 < nat w then gray_level d g j (2 * k + 1) (gs_p st + 4 * (2 * k + 1)) else 0)])
       [0..<(nat w + 1) div 2] (gs_r st)"
    and "gs_n (gray_row d w g j st) = 0"
    and "gs_p (gray_row d w g j st) = gs_p st + 4 * nat w"
proof -
  show "gs_q (gray_row d w g j st) = gs_q st + (nat w + 1) div 2"
    using gray_cols_run(1)[of "nat w" w d g j st] by (simp add: gray_row_cols flushes_all)
  show "gs_r (gray_row d w g j st) =
     fold (\<lambda>k r. r[gs_q st + k :=
            16 * gray_level d g j (2 * k) (gs_p st + 4 * (2 * k)) +
            (if 2 * k + 1 < nat w then gray_level d g j (2 * k + 1) (gs_p st + 4 * (2 * k + 1)) else 0)])
       [0..<(nat w + 1) div 2] (gs_r st)"
    unfolding gray_row_cols gray_cols_run(2)[OF order_refl] flushes_all
    by (rule fold_upd_cong) (rule gray_pair[OF assms])
  show "gs_n (gray_row d w g j st) = 0"
    by (simp add: gray_row_cols gray_cols_n[OF assms])
  show "gs_p (gray_row d w g j st) = gs_p st + 4 * nat w"
    by (simp add: gray_row_cols gray_cols_p)
qed

lemma rows_run_inv:
  fixes row :: "nat \<Rightarrow> 'st \<Rightarrow> 'st"
  assumes I0: "I st0"
    and Is: "\<And>j st. I st \<Longrightarrow> I (row j st)"
    and Qs: "\<And>j st. I st \<Longrightarrow> Q (row j st) = Q st + K"
    and Rs: "\<And>j st. I st \<Longrightarrow> R (row j st) = fold (\<lambda>k r. r[Q st + k := v j k st]) [0..<K] (R st)"
  shows "I (fold row [0..<j] st0) \<and> Q (fold row [0..<j] st0) = Q st0 + j * K \<and>
         length (R (fold row [0..<j] st0)) = length (R st0) \<and>
         (\<forall>j'<j. \<forall>k<K. Q st0 + j' * K + k < length (R st0) \<longrightarrow>
            R (fold row [0..<j] st0) ! (Q st0 + j' * K + k) = v j' k (fold row [0..<j'] st0))"
proof (induction j)
  case 0
  show ?case using I0 by simp
next
  case (Suc j)
  let ?S = "fold row [0..<j] st0"
  from Suc have i: "I ?S" and q: "Q ?S = Q st0 + j * K" and l: "length (R ?S) = length (R st0)"
    and old: "\<And>j' k. j' < j \<Longrightarrow> k < K \<Longrightarrow> Q st0 + j' * K + k < length (R st0) \<Longrightarrow>
            R ?S ! (Q st0 + j' * K + k) = v j' k (fold row [0..<j'] st0)"
    by simp_all
  have "R (fold row [0..<Suc j] st0) ! (Q st0 + j' * K + k) = v j' k (fold row [0..<j'] st0)"
    if "j' < Suc j" "k < K" "Q st0 + j' * K + k < length (R st0)" for j' k
  proof (cases "j' = j")
    case True
    then show ?thesis using that q l by (simp add: Rs[OF i] fold_upd_nth)
  next
    case False
    with that have lt: "j' < j" by simp
    then have "Suc j' \<le> j" by simp
    then have "Suc j' * K \<le> j * K" by (rule mult_le_mono1)
    then have "j' * K + k < j * K" using that(2) by simp
    then show ?thesis using old[OF lt that(2,3)] q by (simp add: Rs[OF i] fold_upd_nth)
  qed
  then show ?case using q l i by (simp add: Qs[OF i] Rs[OF i] Is[OF i] fold_upd_length)
qed

lemma gray_rows_run:
  fixes img g
  defines "K \<equiv> (nat (width img) + 1) div 2"
  shows "gs_q (gray_rows img g j) = j * K"
    and "gs_n (gray_rows img g j) = 0"
    and "gs_p (gray_rows img g j) = 4 * (j * nat (width img))"
    and "j' < j \<Longrightarrow> k < K \<Longrightarrow> j' * K + k < nat (gray_targetSize (width img) (height img)) \<Longrightarrow>
          gs_r (gray_rows img g j) ! (j' * K + k) =
            16 * gray_level_at img g j' (2 * k) +
            (if 2 * k + 1 < nat (width img) then gray_level_at img g j' (2 * k + 1) else 0)"
proof -
  let ?st0 = "gray_init (gray_targetSize (width img) (height img))"
  let ?row = "gray_row (data img) (width img) g"
  let ?v = "\<lambda>j k st. 16 * gray_level (data img) g j (2 * k) (gs_p st + 4 * (2 * k)) +
            (if 2 * k + 1 < nat (width img)
             then gray_level (data img) g j (2 * k + 1) (gs_p st + 4 * (2 * k + 1)) else 0)"
  have p: "gs_p (fold ?row [0..<j] ?st0) = 4 * (j * nat (width img))" for j
  proof (induction j)
    case 0
    show ?case by (simp add: gray_init_def)
  next
    case (Suc j)
    then show ?case by (simp add: gray_row_cols gray_cols_p algebra_simps)
  qed
  have *: "gs_n (fold ?row [0..<j] ?st0) = 0 \<and>
         gs_q (fold ?row [0..<j] ?st0) = gs_q ?st0 + j * K \<and>
         length (gs_r (fold ?row [0..<j] ?st0)) = length (gs_r ?st0) \<and>
         (\<forall>j'<j. \<forall>k<K. gs_q ?st0 + j' * K + k < length (gs_r ?st0) \<longrightarrow>
            gs_r (fold ?row [0..<j] ?st0) ! (gs_q ?st0 + j' * K + k) = ?v j' k (fold ?row [0..<j'] ?st0))"
    by (rule rows_run_inv[where I = "\<lambda>st. gs_n st = 0" and Q = gs_q and R = gs_r and v = ?v])
      (simp_all add: gray_row_run K_def gray_init_def)
  have i0: "gs_q ?st0 = 0" "length (gs_r ?st0) = nat (gray_targetSize (width img) (height img))"
    by (simp_all add: gray_init_def)
  show "gs_q (gray_rows img g j) = j * K" using * by (simp add: gray_rows_def i0)
  show "gs_n (gray_rows img g j) = 0" using * by (simp add: gray_rows_def)
  show "gs_p (gray_rows img g j) = 4 * (j * nat (width img))" using p by (simp add: gray_rows_def)
  show "gs_r (gray_rows img g j) ! (j' * K + k) =
            16 * gray_level_at img g j' (2 * k) +
            (if 2 * k + 1 < nat (width img) then gray_level_at img g j' (2 * k + 1) else 0)"
    if "j' < j" "k < K" "j' * K + k < nat (gray_targetSize (width img) (height img))"
  proof -
    have "gs_r (gray_rows img g j) ! (j' * K + k) = ?v j' k (fold ?row [0..<j'] ?st0)"
      using * that by (simp add: gray_rows_def i0)
    then show ?thesis by (simp add: p gray_level_at_def algebra_simps)
  qed
qed

lemma dims_gray: "dims_ok img \<Longrightarrow> gray_dims img"
  by (simp add: dims_ok_def gray_dims_def)

lemma gray_targetSize_ok:
  assumes "gray_dims img"
  shows "0 \<le> gray_targetSize (width img) (height img)"
    and "nat (gray_targetSize (width img) (height img)) = (nat (width img) + 1) div 2 * nat (height img)"
proof -
  from assms have w: "0 \<le> width img" "width img + 1 < 2 ^ 31" and h: "0 \<le> height img"
    by (simp_all add: gray_dims_def)
  have e: "gray_targetSize (width img) (height img) = (width img + 1) div 2 * height img"
    using w by (simp add: gray_targetSize_def sshr32_id)
  have c: "0 \<le> (width img + 1) div 2" using w by simp
  show "0 \<le> gray_targetSize (width img) (height img)" unfolding e using c h by simp
  show "nat (gray_targetSize (width img) (height img)) = (nat (width img) + 1) div 2 * nat (height img)"
    unfolding e using c h w by (simp add: nat_mult_distrib nat_ceil2)
qed

lemma toGrayImage_ok:
  assumes "gray_accepts cap img"
  shows "toGrayImage cap img g = Inr (gray_output img g)"
  using assms by (simp add: toGrayImage_cases gray_accepts_def)

lemma gray_byte:
  assumes "gray_dims img" "j < nat (height img)" "k < (nat (width img) + 1) div 2"
  shows "gray_output img g ! (j * ((nat (width img) + 1) div 2) + k) =
           16 * gray_level_at img g j (2 * k) +
           (if 2 * k + 1 < nat (width img) then gray_level_at img g j (2 * k + 1) else 0)"
  unfolding gray_output_def
  using assms gray_targetSize_ok(2)[OF assms(1)] index_in_rows[OF assms(2,3)]
  by (intro gray_rows_run(4)) simp_all

lemma mono_output_ok:
  assumes "mono_accepts cap img"
  shows "toMonoImage cap img s g = Inr (mono_output img s g)"
  using toMonoImage_ok[OF assms] by (simp add: mono_output_def)

lemma lum_range:
  assumes "byte_pixel d p"
  shows "\<exists>l. lum d p = Fin l \<and> 0 \<le> l \<and> l \<le> 1"
proof -
  define r where "r = real (d ! p)"
  define g where "g = real (d ! (p + 1))"
  define b where "b = real (d ! (p + 2))"
  define a where "a = real (d ! (p + 3))"
  define L where "L = r * 0.29891 + g * 0.58661 + b * 0.11448"
  from assms have rd: "rd d p = Fin r" "rd d (p + 1) = Fin g" "rd d (p + 2) = Fin b"
    "rd d (p + 3) = Fin a"
    by (simp_all add: byte_pixel_def rd_def r_def g_def b_def a_def)
  from assms have rng: "0 \<le> r" "r \<le> 255" "0 \<le> g" "g \<le> 255" "0 \<le> b" "b \<le> 255"
    "0 \<le> a" "a \<le> 255"
    by (simp_all add: byte_pixel_def r_def g_def b_def a_def)
  have "r * 0.29891 \<le> 255 * 0.29891" "g * 0.58661 \<le> 255 * 0.58661"
    "b * 0.11448 \<le> 255 * 0.11448"
    using rng by (simp_all add: mult_right_mono)
  then have "L \<le> 255 * 0.29891 + 255 * 0.58661 + 255 * 0.11448"
    unfolding L_def by (intro add_mono)
  moreover have "0 \<le> L" unfolding L_def using rng by (intro add_nonneg_nonneg) simp_all
  ultimately have L: "0 \<le> L" "L \<le> 255" by simp_all
  have La: "0 \<le> L * a" "L * a \<le> 255 * a"
    using L rng by (simp_all add: mult_right_mono)
  have rd': "rd d (Suc p) = Fin g" "rd d (Suc (Suc p)) = Fin b"
    using rd by simp_all
  have e: "lum d p = Fin ((L * a / 255 + 255 - a) / 255)"
    by (simp add: lum_def rd rd' jsub_def L_def)
  have "0 \<le> (L * a / 255 + 255 - a) / 255" using La rng by simp
  moreover have "(L * a / 255 + 255 - a) / 255 \<le> 1" using La rng by simp
  ultimately show ?thesis using e by blast
qed

lemma sample_range:
  assumes "byte_pixel d p" "jlt (Fin 0) g"
  shows "\<exists>x. sample d p g = Fin x \<and> 0 \<le> x \<and> x \<le> 255"
proof -
  from lum_range[OF assms(1)] obtain l where l: "lum d p = Fin l" "0 \<le> l" "l \<le> 1" by blast
  have "\<exists>y. jpow (Fin l) (jdiv (Fin 1) g) = Fin y \<and> 0 \<le> y \<and> y \<le> 1"
  proof (cases g)
    case (Fin r)
    with assms(2) have r: "0 < r" by simp
    show ?thesis
    proof (cases "l = 0")
      case True
      then show ?thesis using r Fin by simp
    next
      case False
      with l have "0 < l" by simp
      moreover have "l powr (1 / r) \<le> 1" using l r by (intro powr_le1) simp_all
      ultimately show ?thesis using r Fin by simp
    qed
  next
    case PInf
    then show ?thesis by simp
  next
    case NInf
    with assms(2) show ?thesis by simp
  next
    case NaN
    with assms(2) show ?thesis by simp
  qed
  then obtain y where y: "jpow (Fin l) (jdiv (Fin 1) g) = Fin y" "0 \<le> y" "y \<le> 1" by blast
  then show ?thesis by (simp add: sample_def l(1))
qed

lemma toInt32_byte:
  assumes "0 \<le> x" "x \<le> 255"
  shows "toInt32 (Fin x) = \<lfloor>x\<rfloor>" "0 \<le> \<lfloor>x\<rfloor>" "\<lfloor>x\<rfloor> \<le> 255"
proof -
  show 0: "0 \<le> \<lfloor>x\<rfloor>" using assms(1) by simp
  show 1: "\<lfloor>x\<rfloor> \<le> 255" using assms(2) by (simp add: floor_le_iff)
  show "toInt32 (Fin x) = \<lfloor>x\<rfloor>"
    using assms(1) 0 1 by (simp add: signed_take_bit_int_eq_self)
qed

lemma quantize_mono:
  assumes "v \<le> v'"
  shows "quantize m v \<le> quantize m v'"
proof (cases "v div 17 = v' div 17")
  case True
  have "v mod 17 \<le> v' mod 17"
    using assms True by (metis add_le_cancel_left mult_div_mod_eq)
  then show ?thesis using True by (simp add: quantize_def Let_def)
next
  case False
  have "v div 17 \<le> v' div 17" using assms by (rule div_le_mono)
  with False have "v div 17 + 1 \<le> v' div 17" by simp
  then show ?thesis by (simp add: quantize_def Let_def)
qed

lemma level_of_mono:
  assumes "0 \<le> x" "x \<le> y" "y \<le> 255"
  shows "level_of m (Fin x) \<le> level_of m (Fin y)"
proof -
  have x: "toInt32 (Fin x) = \<lfloor>x\<rfloor>" "0 \<le> \<lfloor>x\<rfloor>" "\<lfloor>x\<rfloor> \<le> 255"
    using toInt32_byte[of x] assms by simp_all
  have y: "toInt32 (Fin y) = \<lfloor>y\<rfloor>" "0 \<le> \<lfloor>y\<rfloor>" "\<lfloor>y\<rfloor> \<le> 255"
    using toInt32_byte[of y] assms by simp_all
  have le: "nat \<lfloor>x\<rfloor> \<le> nat \<lfloor>y\<rfloor>" using assms(2) by (simp add: floor_mono nat_mono)
  have "nat \<lfloor>y\<rfloor> < length thermal" unfolding length_thermal using y(2,3) by linarith
  with le have "thermal ! nat \<lfloor>x\<rfloor> \<le> thermal ! nat \<lfloor>y\<rfloor>"
    using thermal_sorted by (simp add: sorted_nth_mono)
  then show ?thesis
    using x y by (simp add: level_of_def thermal_at_def length_thermal quantize_mono)
qed

lemma gray_nibble:
  assumes "gray_dims img" "j < nat (height img)" "i < nat (width img)"
  shows "nibble_of (gray_output img g) (nat (width img)) j i = gray_level_at img g j i"
proof -
  let ?W = "nat (width img)"
  have k: "i div 2 < (?W + 1) div 2" using assms(3) by linarith
  note b = gray_byte[OF assms(1,2) k, of g]
  have hi: "gray_level_at img g j (2 * (i div 2)) \<le> 15"
    and lo: "gray_level_at img g j (2 * (i div 2) + 1) \<le> 15"
    by (simp_all add: gray_level_at_def gray_level_le)
  show ?thesis
  proof (cases "even i")
    case True
    then have i: "2 * (i div 2) = i" by simp
    show ?thesis using True hi lo unfolding nibble_of_def b i by simp
  next
    case False
    then have i: "2 * (i div 2) + 1 = i" by (simp add: odd_two_times_div_two_succ)
    show ?thesis using False hi lo assms(3) unfolding nibble_of_def b i by simp
  qed
qed

text \<open>
  C10. For a pixel whose channels are bytes and a gamma \<open>g > 0\<close>, the index into the thermal
  table lies in \<open>[0, 255]\<close>, the level \<^verbatim>\<open>v1\<close> of the pixel is at most 15, and the nibble
  of the pixel in the output of toGrayImage is exactly that level: nothing carries into the
  neighbouring nibble. The first two hold for every pixel data; the third for a conversion
  that runs: the engine, whatever its limit \<open>cap\<close>, accepts the allocation of the output.
\<close>

theorem gray_level_in_range:
  assumes "gray_dims img" "j < nat (height img)" "i < nat (width img)"
    and "byte_pixel (data img) (4 * (j * nat (width img) + i))"
    and "jlt (Fin 0) g"
  shows "0 \<le> toInt32 (sample (data img) (4 * (j * nat (width img) + i)) g) \<and>
         toInt32 (sample (data img) (4 * (j * nat (width img) + i)) g) \<le> 255 \<and>
         gray_level_at img g j i \<le> 15 \<and>
         (gray_accepts cap img \<longrightarrow>
            (\<exists>out. toGrayImage cap img g = Inr out \<and>
               nibble_of out (nat (width img)) j i = gray_level_at img g j i))"
proof -
  from sample_range[OF assms(4,5)] obtain x
    where x: "sample (data img) (4 * (j * nat (width img) + i)) g = Fin x" "0 \<le> x" "x \<le> 255"
    by blast
  have "0 \<le> toInt32 (Fin x)" "toInt32 (Fin x) \<le> 255"
    using toInt32_byte[OF x(2,3)] by simp_all
  moreover have "gray_level_at img g j i \<le> 15"
    by (simp add: gray_level_at_def gray_level_le)
  moreover have "\<exists>out. toGrayImage cap img g = Inr out \<and>
            nibble_of out (nat (width img)) j i = gray_level_at img g j i"
    if "gray_accepts cap img"
    using toGrayImage_ok[OF that] gray_nibble[OF assms(1,2,3)] by simp
  ultimately show ?thesis unfolding x(1) by blast
qed

lemma sample_white: "sample [255, 255, 255, 255] 0 (Fin 1) = Fin 255"
  by (simp add: js_defs)

theorem gray_level_in_range_witness:
  "gray_dims \<lparr>data = [255, 255, 255, 255], width = 1, height = 1\<rparr> \<and>
   gray_accepts 4294967295 \<lparr>data = [255, 255, 255, 255], width = 1, height = 1\<rparr> \<and>
   byte_pixel [255, 255, 255, 255] 0 \<and> jlt (Fin 0) (Fin 1) \<and>
   toInt32 (sample [255, 255, 255, 255] 0 (Fin 1)) = 255 \<and>
   gray_level_at \<lparr>data = [255, 255, 255, 255], width = 1, height = 1\<rparr> (Fin 1) 0 0 = 15 \<and>
   (\<exists>out. toGrayImage 4294967295 \<lparr>data = [255, 255, 255, 255], width = 1, height = 1\<rparr> (Fin 1) = Inr out \<and>
      nibble_of out 1 0 0 = 15)"
proof -
  let ?img = "\<lparr>data = [255, 255, 255, 255], width = 1, height = 1\<rparr>"
  have d: "gray_dims ?img" by (simp add: gray_dims_def)
  have a: "gray_accepts 4294967295 ?img"
    by (simp add: gray_accepts_def alloc_fails_def gray_targetSize_def sshr32_def)
  have b: "byte_pixel (data ?img) (4 * (0 * nat (width ?img) + 0))" by (simp add: byte_pixel_def)
  have g: "jlt (Fin 0) (Fin 1)" by simp
  have l: "gray_level_at ?img (Fin 1) 0 0 = 15"
    by (simp add: gray_level_at_def gray_level_def level_of_def sample_white thermal_at_255
        quantize_def m4_def)
  have i: "toInt32 (sample [255, 255, 255, 255] 0 (Fin 1)) = 255"
    by (simp add: sample_white)
  from gray_level_in_range [OF d _ _ b g, of 4294967295] l a
  have "\<exists>out. toGrayImage 4294967295 ?img (Fin 1) = Inr out \<and> nibble_of out 1 0 0 = 15" by simp
  with d a b g l i show ?thesis by (simp add: byte_pixel_def)
qed

text \<open>
  C9. In toGrayImage with a gamma \<open>g > 0\<close>, take two pixels with byte channels whose
  positions have equal entries of the dither matrix \<open>m4\<close>. If the second is strictly
  brighter (its sampled brightness is strictly greater), its nibble in the output is not
  lower than the nibble of the first. The proof uses that the thermal table is sorted. The
  conversion is one that runs: the engine, whatever its limit \<open>cap\<close>, accepts the allocation
  of the output.
\<close>

theorem gray_monotone:
  assumes "gray_dims img"
    and "j < nat (height img)" "i < nat (width img)"
    and "j' < nat (height img)" "i' < nat (width img)"
    and "byte_pixel (data img) (4 * (j * nat (width img) + i))"
    and "byte_pixel (data img) (4 * (j' * nat (width img) + i'))"
    and "jlt (Fin 0) g"
    and "m4 ! (j AND 3) ! (i AND 3) = m4 ! (j' AND 3) ! (i' AND 3)"
    and "jlt (sample (data img) (4 * (j * nat (width img) + i)) g)
             (sample (data img) (4 * (j' * nat (width img) + i')) g)"
    and "gray_accepts cap img"
  shows "\<exists>out. toGrayImage cap img g = Inr out \<and>
           nibble_of out (nat (width img)) j i \<le> nibble_of out (nat (width img)) j' i'"
proof -
  from sample_range[OF assms(6,8)] obtain x
    where x: "sample (data img) (4 * (j * nat (width img) + i)) g = Fin x" "0 \<le> x" "x \<le> 255"
    by blast
  from sample_range[OF assms(7,8)] obtain y
    where y: "sample (data img) (4 * (j' * nat (width img) + i')) g = Fin y" "0 \<le> y" "y \<le> 255"
    by blast
  from assms(10)[unfolded x(1) y(1)] have "x \<le> y" by simp
  then have "level_of (m4 ! (j AND 3) ! (i AND 3)) (Fin x) \<le> level_of (m4 ! (j AND 3) ! (i AND 3)) (Fin y)"
    using x(2) y(3) by (intro level_of_mono)
  then have "gray_level_at img g j i \<le> gray_level_at img g j' i'"
    unfolding gray_level_at_def gray_level_def x(1) y(1) assms(9)[symmetric] .
  then show ?thesis
    using toGrayImage_ok[OF assms(11)] gray_nibble[OF assms(1,2,3)] gray_nibble[OF assms(1,4,5)]
    by simp
qed

theorem gray_monotone_witness:
  "gray_dims \<lparr>data = [0, 0, 0, 255, 9, 9, 9, 255, 9, 9, 9, 255, 9, 9, 9, 255, 255, 255, 255, 255],
      width = 5, height = 1\<rparr> \<and>
   gray_accepts 4294967295
     \<lparr>data = [0, 0, 0, 255, 9, 9, 9, 255, 9, 9, 9, 255, 9, 9, 9, 255, 255, 255, 255, 255],
      width = 5, height = 1\<rparr> \<and>
   sample [0, 0, 0, 255, 9, 9, 9, 255, 9, 9, 9, 255, 9, 9, 9, 255, 255, 255, 255, 255] 0 (Fin 1) = Fin 0 \<and>
   sample [0, 0, 0, 255, 9, 9, 9, 255, 9, 9, 9, 255, 9, 9, 9, 255, 255, 255, 255, 255] 16 (Fin 1) = Fin 255 \<and>
   (\<exists>out. toGrayImage 4294967295
     \<lparr>data = [0, 0, 0, 255, 9, 9, 9, 255, 9, 9, 9, 255, 9, 9, 9, 255, 255, 255, 255, 255],
      width = 5, height = 1\<rparr> (Fin 1) = Inr out \<and> nibble_of out 5 0 0 \<le> nibble_of out 5 0 4)"
proof -
  define d :: "nat list" where
    "d = [0, 0, 0, 255, 9, 9, 9, 255, 9, 9, 9, 255, 9, 9, 9, 255, 255, 255, 255, 255]"
  let ?img = "\<lparr>data = d, width = 5, height = 1\<rparr>"
  have dm: "gray_dims ?img" by (simp add: gray_dims_def)
  have a: "gray_accepts 4294967295 ?img"
    by (simp add: gray_accepts_def alloc_fails_def gray_targetSize_def sshr32_def)
  have b0: "byte_pixel (data ?img) (4 * (0 * nat (width ?img) + 0))"
    by (simp add: byte_pixel_def d_def)
  have b4: "byte_pixel (data ?img) (4 * (0 * nat (width ?img) + 4))"
    by (simp add: byte_pixel_def d_def)
  have g: "jlt (Fin 0) (Fin 1)" by simp
  have s0: "sample d 0 (Fin 1) = Fin 0" by (simp add: js_defs d_def)
  have s4: "sample d 16 (Fin 1) = Fin 255" by (simp add: js_defs d_def)
  have m: "m4 ! (0 AND 3) ! (0 AND 3) = m4 ! (0 AND 3) ! (4 AND (3::nat))" by simp
  have lt: "jlt (sample (data ?img) (4 * (0 * nat (width ?img) + 0)) (Fin 1))
                (sample (data ?img) (4 * (0 * nat (width ?img) + 4)) (Fin 1))"
    by (simp add: s0 s4)
  from gray_monotone [OF dm _ _ _ _ b0 b4 g m lt a]
  have "\<exists>out. toGrayImage 4294967295 ?img (Fin 1) = Inr out \<and> nibble_of out 5 0 0 \<le> nibble_of out 5 0 4"
    by simp
  with dm a s0 s4 show ?thesis unfolding d_def by simp
qed

section \<open>toMonoImage: the bits of a stored byte\<close>

lemma mono_cols_Suc:
  "mono_cols d w s g j st (Suc i) =
     mono_pixel d w s g (errorBuffer st ! 0) (errorBuffer st ! 1) (errorBuffer st ! 2) j i
       (mono_cols d w s g j st i)"
  by (simp add: mono_cols_def)

lemma bit_drop_128: "bit (drop_bit m (128::nat)) b \<longleftrightarrow> m + b = 7"
proof -
  have "(128::nat) = 2 ^ 7" by simp
  then show ?thesis by (simp only: bit_drop_bit_eq bit_exp_iff comp_def) auto
qed

lemma mono_cols_n_bits:
  assumes n: "st_n st = 0" and i: "i \<le> nat w"
  shows "bit (st_n (mono_cols d w s g j st i)) b \<longleftrightarrow>
           (i < nat w \<and> b < 8 \<and> 7 - b < i mod 8 \<and>
            isDark d s g (errorBuffer st ! 0) j (8 * (i div 8) + (7 - b))
              (mono_cols d w s g j st (8 * (i div 8) + (7 - b))))"
  using i
proof (induction i)
  case 0
  show ?case using n by (simp add: mono_cols_def mono_row_start_def)
next
  case (Suc i)
  let ?D = "\<lambda>c. isDark d s g (errorBuffer st ! 0) j c (mono_cols d w s g j st c)"
  from Suc have IH: "bit (st_n (mono_cols d w s g j st i)) b \<longleftrightarrow>
      (b < 8 \<and> 7 - b < i mod 8 \<and> ?D (8 * (i div 8) + (7 - b)))"
    by simp
  show ?case
  proof (cases "i mod 8 = 7 \<or> Suc i = nat w")
    case True
    have "\<not> (Suc i < nat w \<and> 7 - b < Suc i mod 8)"
      using True by (auto simp: mod_Suc)
    then show ?thesis using True by (auto simp: mono_cols_Suc mono_pixel_sel)
  next
    case False
    then have m: "Suc i mod 8 = Suc (i mod 8)" and dv: "Suc i div 8 = i div 8"
      and lt: "Suc i < nat w"
      using Suc.prems by (auto simp: mod_Suc div_Suc)
    have eq: "8 * (i div 8) + i mod 8 = i" by (rule mult_div_mod_eq)
    have n': "st_n (mono_cols d w s g j st (Suc i)) =
        (if ?D i then st_n (mono_cols d w s g j st i) OR drop_bit (i mod 8) 128
         else st_n (mono_cols d w s g j st i))"
      using False by (simp add: mono_cols_Suc mono_pixel_sel mono_acc_def and7)
    have "bit (st_n (mono_cols d w s g j st (Suc i))) b \<longleftrightarrow>
        bit (st_n (mono_cols d w s g j st i)) b \<or> (?D i \<and> i mod 8 + b = 7)"
      unfolding n' by (simp add: bit_or_iff bit_drop_128)
    also have "\<dots> \<longleftrightarrow> (b < 8 \<and> 7 - b < i mod 8 \<and> ?D (8 * (i div 8) + (7 - b))) \<or>
        (?D i \<and> i mod 8 + b = 7)"
      unfolding IH ..
    also have "\<dots> \<longleftrightarrow> (b < 8 \<and> 7 - b < Suc (i mod 8) \<and> ?D (8 * (i div 8) + (7 - b)))"
    proof (cases "i mod 8 + b = 7")
      case True
      then have "7 - b = i mod 8" "b < 8" by simp_all
      then show ?thesis using eq True by simp
    next
      case False
      then have "b < 8 \<Longrightarrow> 7 - b \<noteq> i mod 8" by auto
      then show ?thesis using False by (auto simp: less_Suc_eq)
    qed
    finally show ?thesis using lt by (simp add: m dv)
  qed
qed

lemma mono_rows_n: "st_n (mono_rows img s g j) = 0"
proof (induction j)
  case 0
  show ?case by (simp add: mono_rows_0 mono_init_def)
next
  case (Suc j)
  have "\<not> bit (st_n (mono_cols (data img) (width img) s g j (mono_rows img s g j) (nat (width img)))) b" for b
    using mono_cols_n_bits[OF Suc order_refl, where d = "data img" and s = s and g = g and j = j and b = b] by simp
  then have "st_n (mono_cols (data img) (width img) s g j (mono_rows img s g j) (nat (width img))) = 0"
    by (simp add: bit_eq_iff)
  then show ?case by (simp add: mono_rows_Suc mono_row_eq)
qed

text \<open>
  The bits of the running byte at pixel \<open>(j, i)\<close>: bit \<open>7 - m\<close> is the decision of column
  \<open>m\<close> of the pixel's group, up to the pixel's own column.
\<close>

lemma mono_n_at_bits:
  assumes "i < nat (width img)"
  shows "bit (mono_n_at img s g j i) b \<longleftrightarrow>
           (b < 8 \<and> 7 - b \<le> i mod 8 \<and> mono_dark_at img s g j (8 * (i div 8) + (7 - b)))"
proof -
  let ?cur = "errorBuffer (mono_rows img s g j) ! 0"
  have le: "i \<le> nat (width img)" using assms by simp
  have eq: "8 * (i div 8) + i mod 8 = i" by (rule mult_div_mod_eq)
  have N: "bit (st_n (mono_before img s g j i)) b \<longleftrightarrow>
      (b < 8 \<and> 7 - b < i mod 8 \<and> mono_dark_at img s g j (8 * (i div 8) + (7 - b)))"
    using mono_cols_n_bits[OF mono_rows_n le, where d = "data img" and s = s and g = g and j = j and b = b] assms
    by (simp add: mono_before_def mono_dark_at_def)
  have "bit (mono_n_at img s g j i) b \<longleftrightarrow>
      bit (st_n (mono_before img s g j i)) b \<or> (mono_dark_at img s g j i \<and> i mod 8 + b = 7)"
    by (simp add: mono_n_at_def mono_acc_def mono_dark_at_def bit_or_iff bit_drop_128 and7)
  also have "\<dots> \<longleftrightarrow> (b < 8 \<and> 7 - b \<le> i mod 8 \<and> mono_dark_at img s g j (8 * (i div 8) + (7 - b)))"
  proof (cases "i mod 8 + b = 7")
    case True
    then have "7 - b = i mod 8" "b < 8" by simp_all
    then show ?thesis using eq N True by simp
  next
    case False
    then have "b < 8 \<Longrightarrow> 7 - b \<noteq> i mod 8" by auto
    then show ?thesis using False N by (auto simp: le_less)
  qed
  finally show ?thesis .
qed

lemma flush_col8:
  assumes "k < (W + 7) div 8"
  shows "flush_col 8 W k < W" "flush_col 8 W k div 8 = k" "8 * k \<le> flush_col 8 W k"
proof -
  have W: "8 * k < W" using assms by linarith
  then have "8 * k \<le> W - 1" by simp
  then show 1: "8 * k \<le> flush_col 8 W k" by (simp add: flush_col_def)
  show 2: "flush_col 8 W k < W" using W by (simp add: flush_col_def)
  have "flush_col 8 W k \<le> 8 * k + 7" by (simp add: flush_col_def)
  with 1 show "flush_col 8 W k div 8 = k" by linarith
qed

lemma bit_16: "bit (16::nat) b \<longleftrightarrow> b = 4"
proof -
  have "(16::nat) = 2 ^ 4" by simp
  then show ?thesis by (simp only: bit_exp_iff) auto
qed

lemma bit_32: "bit (32::nat) b \<longleftrightarrow> b = 5"
proof -
  have "(32::nat) = 2 ^ 5" by simp
  then show ?thesis by (simp only: bit_exp_iff) auto
qed

text \<open>
  The bits of the byte that toMonoImage stores for group \<open>k\<close> of row \<open>j\<close>, before the
  substitution of 16.
\<close>

lemma mono_accumulated_bits:
  assumes "k < (nat (width img) + 7) div 8"
  shows "bit (mono_accumulated img s g j k) b \<longleftrightarrow>
           (b < 8 \<and> 8 * k + (7 - b) \<le> flush_col 8 (nat (width img)) k \<and>
            mono_dark_at img s g j (8 * k + (7 - b)))"
proof -
  let ?c = "flush_col 8 (nat (width img)) k"
  note fc = flush_col8[OF assms]
  have eq: "8 * (?c div 8) + ?c mod 8 = ?c" by (rule mult_div_mod_eq)
  have "7 - b \<le> ?c mod 8 \<longleftrightarrow> 8 * k + (7 - b) \<le> ?c" using eq fc(2) by linarith
  then show ?thesis
    unfolding mono_accumulated_n_at mono_n_at_bits[OF fc(1)] fc(2) by simp
qed

lemma mono_padding:
  assumes d: "dims_ok img" and j: "j < nat (height img)" and k: "k < (nat (width img) + 7) div 8"
    and b: "nat (width img) \<le> 8 * k + (7 - b)"
  shows "\<not> bit (mono_output img s g ! (j * ((nat (width img) + 7) div 8) + k)) b"
proof -
  let ?a = "mono_accumulated img s g j k"
  note fc = flush_col8[OF k]
  have out: "mono_output img s g ! (j * ((nat (width img) + 7) div 8) + k) = (if ?a = 16 then 32 else ?a)"
    unfolding mono_output_def by (rule mono_byte[OF d j k])
  have a: "\<not> bit ?a b" using b fc(1) by (simp add: mono_accumulated_bits[OF k])
  show ?thesis
  proof (cases "?a = 16")
    case True
    have "bit (16::nat) 4" by (simp only: bit_16)
    with True have "bit ?a 4" by (simp only:)
    then have "8 * k + 3 \<le> flush_col 8 (nat (width img)) k"
      by (simp add: mono_accumulated_bits[OF k])
    with fc(1) b have "b \<noteq> 5" by auto
    then show ?thesis using True out by (simp add: bit_32)
  next
    case False
    then show ?thesis using a out by simp
  qed
qed

text \<open>
  C7. In every row of the output of toMonoImage, for every dither mode, a bit of a byte
  whose column is not a column of the image (a padding bit) is 0, also in a byte that the
  substitution of 16 by 32 changed; every byte of a row but the last holds eight columns of
  the image. In every row of the output of toGrayImage, the low nibble of a byte whose odd
  column is not a column of the image is 0; every byte of a row but the last holds two
  columns of the image. Each conversion is one that runs: the engine, whatever its limit
  \<open>cap\<close>, accepts its allocations.
\<close>

theorem padding_is_zero:
  assumes "dims_ok img" "j < nat (height img)"
  shows "(mono_accepts cap img \<longrightarrow>
          (\<exists>out. toMonoImage cap img s g = Inr out \<and>
            (\<forall>k < (nat (width img) + 7) div 8. \<forall>b < 8. nat (width img) \<le> 8 * k + (7 - b) \<longrightarrow>
               \<not> bit (out ! (j * ((nat (width img) + 7) div 8) + k)) b))) \<and>
         (\<forall>k. Suc k < (nat (width img) + 7) div 8 \<longrightarrow> 8 * k + 7 < nat (width img)) \<and>
         (gray_accepts cap img \<longrightarrow>
          (\<exists>out. toGrayImage cap img g = Inr out \<and>
            (\<forall>k < (nat (width img) + 1) div 2. nat (width img) \<le> 2 * k + 1 \<longrightarrow>
               out ! (j * ((nat (width img) + 1) div 2) + k) mod 16 = 0))) \<and>
         (\<forall>k. Suc k < (nat (width img) + 1) div 2 \<longrightarrow> 2 * k + 1 < nat (width img))"
proof -
  note gd = dims_gray[OF assms(1)]
  have "\<not> bit (mono_output img s g ! (j * ((nat (width img) + 7) div 8) + k)) b"
    if "k < (nat (width img) + 7) div 8" "nat (width img) \<le> 8 * k + (7 - b)" for k b
    using mono_padding[OF assms that] .
  moreover have "gray_output img g ! (j * ((nat (width img) + 1) div 2) + k) mod 16 = 0"
    if "k < (nat (width img) + 1) div 2" "nat (width img) \<le> 2 * k + 1" for k
    unfolding gray_byte[OF gd assms(2) that(1)] using that(2) by simp
  moreover have "8 * k + 7 < nat (width img)" if "Suc k < (nat (width img) + 7) div 8" for k
    using that by linarith
  moreover have "2 * k + 1 < nat (width img)" if "Suc k < (nat (width img) + 1) div 2" for k
    using that by linarith
  ultimately show ?thesis
    using mono_output_ok[of cap img s g] toGrayImage_ok[of cap img g] by simp
qed

theorem padding_is_zero_witness:
  "dims_ok \<lparr>data = [0, 0, 0, 255, 0, 0, 0, 255, 0, 0, 0, 255], width = 3, height = 1\<rparr> \<and>
   mono_accepts 4294967295 \<lparr>data = [0, 0, 0, 255, 0, 0, 0, 255, 0, 0, 0, 255], width = 3, height = 1\<rparr> \<and>
   gray_accepts 4294967295 \<lparr>data = [0, 0, 0, 255, 0, 0, 0, 255, 0, 0, 0, 255], width = 3, height = 1\<rparr> \<and>
   (\<exists>out. toMonoImage 4294967295
       \<lparr>data = [0, 0, 0, 255, 0, 0, 0, 255, 0, 0, 0, 255], width = 3, height = 1\<rparr>
       0 (Fin 1) = Inr out \<and> \<not> bit (out ! 0) 4 \<and> \<not> bit (out ! 0) 0) \<and>
   (\<exists>out. toGrayImage 4294967295
       \<lparr>data = [0, 0, 0, 255, 0, 0, 0, 255, 0, 0, 0, 255], width = 3, height = 1\<rparr>
       (Fin 1) = Inr out \<and> out ! 1 mod 16 = 0)"
proof -
  let ?img = "\<lparr>data = [0, 0, 0, 255, 0, 0, 0, 255, 0, 0, 0, 255], width = 3, height = 1\<rparr>"
  have d: "dims_ok ?img" by (simp add: dims_ok_def)
  have am: "mono_accepts 4294967295 ?img"
    by (simp add: mono_accepts_def alloc_fails_def mono_targetSize_def sshr32_def)
  have ag: "gray_accepts 4294967295 ?img"
    by (simp add: gray_accepts_def alloc_fails_def gray_targetSize_def sshr32_def)
  have h: "0 < nat (height ?img)" by simp
  from padding_is_zero [OF d h, of 4294967295 0 "Fin 1"] am ag
  obtain o1 o2 where o1: "toMonoImage 4294967295 ?img 0 (Fin 1) = Inr o1"
    and p1: "\<forall>k < (nat (width ?img) + 7) div 8. \<forall>b < 8. nat (width ?img) \<le> 8 * k + (7 - b) \<longrightarrow>
               \<not> bit (o1 ! (0 * ((nat (width ?img) + 7) div 8) + k)) b"
    and o2: "toGrayImage 4294967295 ?img (Fin 1) = Inr o2"
    and p2: "\<forall>k < (nat (width ?img) + 1) div 2. nat (width ?img) \<le> 2 * k + 1 \<longrightarrow>
               o2 ! (0 * ((nat (width ?img) + 1) div 2) + k) mod 16 = 0"
    by blast
  from p1 have "\<not> bit (o1 ! 0) 4" "\<not> bit (o1 ! 0) 0" by simp_all
  moreover from p2 have "o2 ! 1 mod 16 = 0" by simp
  ultimately show ?thesis using d am ag o1 o2 by simp
qed

section \<open>Uniform images\<close>

lemma valid_dims_ok: "valid_image img \<Longrightarrow> width img < 2 ^ 31 - 7 \<Longrightarrow> dims_ok img"
  by (simp add: valid_image_def dims_ok_def)

lemma valid_gray_dims: "valid_image img \<Longrightarrow> width img < 2 ^ 31 - 1 \<Longrightarrow> gray_dims img"
  by (simp add: valid_image_def gray_dims_def)

lemma valid_pixel_index:
  assumes "valid_image img" "j < nat (height img)" "i < nat (width img)"
  shows "4 * (j * nat (width img) + i) + 3 < length (data img)"
proof -
  from assms(1) have w: "0 \<le> width img" and h: "0 \<le> height img"
    and l: "int (length (data img)) = width img * height img * 4"
    by (simp_all add: valid_image_def)
  have "length (data img) = nat (width img * height img * 4)" using l by simp
  also have "\<dots> = nat (width img) * nat (height img) * 4"
    using w h by (simp add: nat_mult_distrib)
  finally have len: "length (data img) = 4 * (nat (width img) * nat (height img))" by simp
  have "j * nat (width img) + i < nat (width img) * nat (height img)"
    using index_in_rows[OF assms(2,3)] .
  then show ?thesis unfolding len by simp
qed

lemma sample_white_pixel:
  assumes "p + 3 < length d" "\<forall>k < length d. d ! k = 255"
  shows "sample d p (Fin 1) = Fin 255"
proof -
  have "rd d p = Fin 255" "rd d (p + 1) = Fin 255" "rd d (p + 2) = Fin 255" "rd d (p + 3) = Fin 255"
    using assms by (simp_all add: rd_def)
  then show ?thesis unfolding sample_def lum_def by (simp add: jsub_def)
qed

lemma sample_black_pixel:
  assumes "p + 3 < length d" "\<forall>k < length d. d ! k = (if k mod 4 = 3 then 255 else 0)"
    "p mod 4 = 0"
  shows "sample d p (Fin 1) = Fin 0"
proof -
  have m: "(p + 1) mod 4 = 1" "(p + 2) mod 4 = 2" "(p + 3) mod 4 = 3"
    using assms(3) by presburger+
  have "rd d p = Fin 0" "rd d (p + 1) = Fin 0" "rd d (p + 2) = Fin 0" "rd d (p + 3) = Fin 255"
    using assms m by (simp_all add: rd_def)
  then show ?thesis unfolding sample_def lum_def by (simp add: jsub_def)
qed

lemma bayer_range: "list_all (list_all (\<lambda>t. 2 \<le> t \<and> t \<le> 254)) bayer"
  by (simp add: bayer_def)

lemma bayer_nth: "a < 8 \<Longrightarrow> b < 8 \<Longrightarrow> 2 \<le> bayer ! a ! b \<and> bayer ! a ! b \<le> 254"
proof -
  assume a: "a < 8" and b: "b < 8"
  have la: "length bayer = 8" by (simp add: bayer_def)
  have "list_all (\<lambda>t. 2 \<le> t \<and> t \<le> 254) (bayer ! a)"
    using bayer_range a la by (simp add: list_all_length)
  moreover have "length (bayer ! a) = 8"
  proof -
    have "list_all (\<lambda>r. length r = 8) bayer" by (simp add: bayer_def)
    then show ?thesis using a la by (simp add: list_all_length)
  qed
  ultimately show ?thesis using b by (simp add: list_all_length)
qed

lemma mono_t_range: "2 \<le> mono_t s j i \<and> mono_t s j i \<le> 254"
  using bayer_nth[of "j mod 8" "i mod 8"] by (simp add: mono_t_def and7)

lemma bump_zero:
  assumes "\<forall>b m. m < length (hp b) \<longrightarrow> hp b ! m = Fin 0"
  shows "bump (a, k, Fin 0) hp = hp"
proof (cases "k < length (hp a)")
  case True
  with assms have "hp a ! k = Fin 0" by simp
  then have "(hp a)[k := jadd (rdf (hp a) k) (Fin 0)] = hp a"
    using True by (simp add: rdf_def list_update_same_conv)
  then show ?thesis by (simp add: bump_def)
next
  case False
  then show ?thesis by (simp add: bump_def list_update_beyond)
qed

lemma diffuse_zero:
  assumes "\<forall>b m. m < length (hp b) \<longrightarrow> hp b ! m = Fin 0"
  shows "diffuse s cur nxt nxt2 i (Fin 0) hp = hp"
  by (simp add: diffuse_def bump_zero[OF assms])

lemma zero_store_zero: "\<forall>b m. m < length (zero_store w b) \<longrightarrow> zero_store w b ! m = Fin 0"
  by (simp add: zero_store_def)

lemma errorBuffer_rows_lt3:
  assumes "k < 3"
  shows "errorBuffer (mono_rows img s g j) ! k < 3"
proof -
  consider "j = 0" | "j = Suc 0" | j' where "j = Suc (Suc j')"
    by (cases j) (auto, metis not0_implies_Suc)
  then show ?thesis
  proof cases
    case 1
    then show ?thesis using assms by (auto simp: errorBuffer_rows_0 less_Suc_eq numeral_3_eq_3)
  next
    case 2
    then show ?thesis using assms by (auto simp: errorBuffer_rows_1 less_Suc_eq numeral_3_eq_3)
  next
    case 3
    then show ?thesis using assms by (auto simp: errorBuffer_rows_2 less_Suc_eq numeral_3_eq_3)
  qed
qed

lemma quiet_pixel:
  assumes hp: "st_heap st = zero_store w" and cur: "cur < 3" and i: "i < nat w"
    and smp: "sample d (st_p st) g = Fin c" and c: "c = 0 \<or> c = 255"
  shows "isDark d s g cur j i st \<longleftrightarrow> c = 0"
    and "st_heap (mono_pixel d w s g cur nxt nxt2 j i st) = zero_store w"
proof -
  have "i + 2 < nat (w + 4)" using i by linarith
  then have r: "rdf (zero_store w cur) (i + 2) = Fin 0"
    using cur by (simp add: zero_store_def rdf_def)
  have v: "mono_v d s g cur i st = Fin c"
    by (simp add: mono_v_def smp hp r del: add_2_eq_Suc')
  note t = mono_t_range[of s j i]
  show dark: "isDark d s g cur j i st \<longleftrightarrow> c = 0"
    using c t by (auto simp: isDark_def v)
  have "mono_err d s g cur j i st = Fin 0"
    using c dark by (auto simp: mono_err_def v jsub_def)
  then show "st_heap (mono_pixel d w s g cur nxt nxt2 j i st) = zero_store w"
    by (simp add: mono_pixel_sel hp diffuse_zero[OF zero_store_zero])
qed

lemma quiet_row_start:
  assumes "st_heap st = zero_store w"
  shows "st_heap (mono_row_start st) = zero_store w"
  by (auto simp: mono_row_start_def assms zero_store_def fun_eq_iff)

lemma quiet_cols:
  assumes hp: "st_heap st = zero_store w"
    and eb: "errorBuffer st ! 0 < 3"
    and smp: "\<And>i. i < nat w \<Longrightarrow> sample d (st_p st + 4 * i) g = Fin c"
    and c: "c = 0 \<or> c = 255"
    and i: "i \<le> nat w"
  shows "st_heap (mono_cols d w s g j st i) = zero_store w"
  using i
proof (induction i)
  case 0
  show ?case by (simp add: mono_cols_def quiet_row_start[OF hp])
next
  case (Suc i)
  then have IH: "st_heap (mono_cols d w s g j st i) = zero_store w" and lt: "i < nat w"
    by simp_all
  have s: "sample d (st_p (mono_cols d w s g j st i)) g = Fin c"
    using smp[OF lt] by (simp add: mono_cols_p)
  show ?case
    unfolding mono_cols_Suc by (rule quiet_pixel(2)[OF IH eb lt s c])
qed

lemma quiet_cols_dark:
  assumes hp: "st_heap st = zero_store w"
    and eb: "errorBuffer st ! 0 < 3"
    and smp: "\<And>i. i < nat w \<Longrightarrow> sample d (st_p st + 4 * i) g = Fin c"
    and c: "c = 0 \<or> c = 255"
    and i: "i < nat w"
  shows "isDark d s g (errorBuffer st ! 0) j i (mono_cols d w s g j st i) \<longleftrightarrow> c = 0"
proof -
  have le: "i \<le> nat w" using i by simp
  have h: "st_heap (mono_cols d w s g j st i) = zero_store w"
    by (rule quiet_cols[OF hp eb smp c le])
  have s: "sample d (st_p (mono_cols d w s g j st i)) g = Fin c"
    using smp[OF i] by (simp add: mono_cols_p)
  show ?thesis by (rule quiet_pixel(1)[OF h eb i s c])
qed

lemma quiet_rows:
  assumes smp: "\<And>j i. j < nat (height img) \<Longrightarrow> i < nat (width img) \<Longrightarrow>
             sample (data img) (4 * (j * nat (width img) + i)) g = Fin c"
    and c: "c = 0 \<or> c = 255"
    and j: "j \<le> nat (height img)"
  shows "st_heap (mono_rows img s g j) = zero_store (width img)"
  using j
proof (induction j)
  case 0
  show ?case by (simp add: mono_rows_0 mono_init_def zero_store_def)
next
  case (Suc j)
  then have IH: "st_heap (mono_rows img s g j) = zero_store (width img)"
    and lt: "j < nat (height img)" by simp_all
  have s: "sample (data img) (st_p (mono_rows img s g j) + 4 * i) g = Fin c"
    if "i < nat (width img)" for i
    using smp[OF lt that] by (simp add: mono_rows_p algebra_simps)
  have "st_heap (mono_cols (data img) (width img) s g j (mono_rows img s g j) (nat (width img)))
      = zero_store (width img)"
    by (rule quiet_cols[OF IH errorBuffer_rows_lt3 s c order_refl]) simp_all
  then show ?case by (simp add: mono_rows_Suc mono_row_eq)
qed

lemma quiet_dark:
  assumes smp: "\<And>j i. j < nat (height img) \<Longrightarrow> i < nat (width img) \<Longrightarrow>
             sample (data img) (4 * (j * nat (width img) + i)) g = Fin c"
    and c: "c = 0 \<or> c = 255"
    and j: "j < nat (height img)" and i: "i < nat (width img)"
  shows "mono_dark_at img s g j i \<longleftrightarrow> c = 0"
proof -
  have le: "j \<le> nat (height img)" using j by simp
  have hp: "st_heap (mono_rows img s g j) = zero_store (width img)"
    by (rule quiet_rows[OF smp c le])
  have s: "sample (data img) (st_p (mono_rows img s g j) + 4 * i) g = Fin c"
    if "i < nat (width img)" for i
    using smp[OF j that] by (simp add: mono_rows_p algebra_simps)
  show ?thesis
    unfolding mono_dark_at_def mono_before_def
    by (rule quiet_cols_dark[OF hp errorBuffer_rows_lt3 s c i]) simp_all
qed

lemma level_of_255: "level_of m (Fin 255) = 15"
proof -
  have "toInt32 (Fin 255) = 255" using toInt32_byte(1)[of 255] by simp
  then show ?thesis by (simp add: level_of_def thermal_at_255 quantize_def)
qed

lemma level_of_0: "level_of m (Fin 0) = 0"
proof -
  have "toInt32 (Fin 0) = 0" using toInt32_byte(1)[of 0] by simp
  then show ?thesis by (simp add: level_of_def thermal_at_0 quantize_def)
qed

lemma white_samples:
  assumes "white_image img" "j < nat (height img)" "i < nat (width img)"
  shows "sample (data img) (4 * (j * nat (width img) + i)) (Fin 1) = Fin 255"
  using assms valid_pixel_index[OF _ assms(2,3)]
  by (intro sample_white_pixel) (simp_all add: white_image_def)

lemma black_samples:
  assumes "black_image img" "j < nat (height img)" "i < nat (width img)"
  shows "sample (data img) (4 * (j * nat (width img) + i)) (Fin 1) = Fin 0"
  using assms valid_pixel_index[OF _ assms(2,3)]
  by (intro sample_black_pixel) (simp_all add: black_image_def)

lemma white_mono_byte:
  assumes w: "white_image img" and b7: "width img < 2 ^ 31 - 7" and j: "j < nat (height img)"
    and k: "k < (nat (width img) + 7) div 8"
  shows "mono_output img s (Fin 1) ! (j * ((nat (width img) + 7) div 8) + k) = 0"
proof -
  have d: "dims_ok img" using w b7 by (simp add: white_image_def valid_dims_ok)
  note fc = flush_col8[OF k]
  have "\<not> bit (mono_accumulated img s (Fin 1) j k) b" for b
  proof
    assume "bit (mono_accumulated img s (Fin 1) j k) b"
    then have c: "8 * k + (7 - b) \<le> flush_col 8 (nat (width img)) k"
      and dk: "mono_dark_at img s (Fin 1) j (8 * k + (7 - b))"
      unfolding mono_accumulated_bits[OF k] by blast+
    from c fc(1) have i: "8 * k + (7 - b) < nat (width img)" by simp
    have "mono_dark_at img s (Fin 1) j (8 * k + (7 - b)) \<longleftrightarrow> (255::real) = 0"
      by (rule quiet_dark[OF white_samples[OF w] _ j i]) simp_all
    with dk show False by simp
  qed
  then have "mono_accumulated img s (Fin 1) j k = 0" by (simp add: bit_eq_iff)
  then show ?thesis
    using mono_byte[OF d j k, of s "Fin 1"] by (simp add: mono_output_def)
qed

lemma white_mono_all:
  assumes w: "white_image img" and b7: "width img < 2 ^ 31 - 7"
    and m: "m < length (mono_output img s (Fin 1))"
  shows "mono_output img s (Fin 1) ! m = 0"
proof -
  let ?K = "(nat (width img) + 7) div 8"
  have d: "dims_ok img" using w b7 by (simp add: white_image_def valid_dims_ok)
  have len: "length (mono_output img s (Fin 1)) = ?K * nat (height img)"
    by (simp add: mono_output_length mono_targetSize_ok(3)[OF d])
  with m have lt: "m < ?K * nat (height img)" by simp
  then have K: "0 < ?K" by (cases "?K = 0") simp_all
  have j: "m div ?K < nat (height img)"
    using lt by (simp add: less_mult_imp_div_less mult.commute)
  have k: "m mod ?K < ?K" using K by simp
  have "mono_output img s (Fin 1) ! (m div ?K * ?K + m mod ?K) = 0"
    by (rule white_mono_byte[OF w b7 j k])
  then show ?thesis by (simp only: div_mult_mod_eq)
qed

lemma black_mono_bit:
  assumes b: "black_image img" and b7: "width img < 2 ^ 31 - 7"
    and j: "j < nat (height img)" and i: "i < nat (width img)"
  shows "bit (mono_output img s (Fin 1) ! (j * ((nat (width img) + 7) div 8) + i div 8))
           (7 - i mod 8)"
proof -
  let ?W = "nat (width img)"
  let ?a = "mono_accumulated img s (Fin 1) j (i div 8)"
  have d: "dims_ok img" using b b7 by (simp add: black_image_def valid_dims_ok)
  have k: "i div 8 < (?W + 7) div 8" using i by linarith
  note fc = flush_col8[OF k]
  have eq: "8 * (i div 8) + i mod 8 = i" by (rule mult_div_mod_eq)
  have dark: "mono_dark_at img s (Fin 1) j c" if "c \<le> flush_col 8 ?W (i div 8)" for c
  proof -
    from that fc(1) have c: "c < ?W" by simp
    have "mono_dark_at img s (Fin 1) j c \<longleftrightarrow> (0::real) = 0"
      by (rule quiet_dark[OF black_samples[OF b] _ j c]) simp_all
    then show ?thesis by simp
  qed
  have bits: "bit ?a b \<longleftrightarrow> (b < 8 \<and> 8 * (i div 8) + (7 - b) \<le> flush_col 8 ?W (i div 8))" for b
    unfolding mono_accumulated_bits[OF k] using dark by blast
  have "i \<le> flush_col 8 ?W (i div 8)"
    using i eq by (simp add: flush_col_def) linarith
  moreover have "7 - (7 - i mod 8) = i mod 8" "7 - i mod 8 < 8" by simp_all
  ultimately have 1: "bit ?a (7 - i mod 8)"
    unfolding bits using eq by (simp only:)
  have "bit ?a 7" unfolding bits using fc(3) by simp
  then have "?a \<noteq> 16" by (auto simp: bit_16)
  then show ?thesis
    using mono_byte[OF d j k, of s "Fin 1"] 1 by (simp add: mono_output_def)
qed

text \<open>
  C6, as stated, asks every image of one colour, of any width and height from 1 on, to be
  converted. A white image of width \<open>2\<^sup>3\<^sup>1 - 7\<close> and height 2 is not: \<^verbatim>\<open>(w + 7) >> 3\<close> wraps
  to a negative number and the allocation of the output raises RangeError, whatever the
  engine's limit.
\<close>

theorem uniform_images_counterexample:
  "white_image \<lparr>data = replicate 17179869128 255, width = 2147483641, height = 2\<rparr> \<and>
   toMonoImage 9007199254740991
     \<lparr>data = replicate 17179869128 255, width = 2147483641, height = 2\<rparr> 1 (Fin 1) = Inl RangeError"
  by (simp add: white_image_def valid_image_def toMonoImage_def mono_targetSize_def sshr32_def
      alloc_fails_def)

text \<open>
  C6 (as amended). With gamma 1, take an image of one colour whose width is below
  \<open>2\<^sup>3\<^sup>1 - 7\<close> for toMonoImage and below \<open>2\<^sup>3\<^sup>1 - 1\<close> for toGrayImage, and whose allocations
  the engine, whatever its limit \<open>cap\<close>, accepts. If every pixel is (255, 255, 255, 255) the
  output is all-light: every byte of toMonoImage is 0 under every dither mode, and every
  nibble of toGrayImage is 15. If every pixel is (0, 0, 0, 255) the output is all-dark: the
  bit of every pixel of toMonoImage is 1 under every dither mode, and every nibble of
  toGrayImage is 0.
\<close>

theorem uniform_images:
  "(white_image img \<longrightarrow>
      (width img < 2 ^ 31 - 7 \<and> mono_accepts cap img \<longrightarrow>
         (\<exists>out. toMonoImage cap img s (Fin 1) = Inr out \<and> (\<forall>k < length out. out ! k = 0))) \<and>
      (width img < 2 ^ 31 - 1 \<and> gray_accepts cap img \<longrightarrow>
         (\<exists>out. toGrayImage cap img (Fin 1) = Inr out \<and>
            (\<forall>j < nat (height img). \<forall>i < nat (width img).
               nibble_of out (nat (width img)) j i = 15)))) \<and>
   (black_image img \<longrightarrow>
      (width img < 2 ^ 31 - 7 \<and> mono_accepts cap img \<longrightarrow>
         (\<exists>out. toMonoImage cap img s (Fin 1) = Inr out \<and>
            (\<forall>j < nat (height img). \<forall>i < nat (width img).
               bit (out ! (j * ((nat (width img) + 7) div 8) + i div 8)) (7 - i mod 8)))) \<and>
      (width img < 2 ^ 31 - 1 \<and> gray_accepts cap img \<longrightarrow>
         (\<exists>out. toGrayImage cap img (Fin 1) = Inr out \<and>
            (\<forall>j < nat (height img). \<forall>i < nat (width img).
               nibble_of out (nat (width img)) j i = 0))))"
proof -
  have 1: "\<exists>out. toMonoImage cap img s (Fin 1) = Inr out \<and> (\<forall>k < length out. out ! k = 0)"
    if w: "white_image img" and b7: "width img < 2 ^ 31 - 7" and a: "mono_accepts cap img"
    using mono_output_ok[OF a, of s "Fin 1"] white_mono_all[OF w b7, of _ s] by simp
  have 2: "\<exists>out. toGrayImage cap img (Fin 1) = Inr out \<and>
         (\<forall>j < nat (height img). \<forall>i < nat (width img). nibble_of out (nat (width img)) j i = 15)"
    if w: "white_image img" and b1: "width img < 2 ^ 31 - 1" and a: "gray_accepts cap img"
  proof -
    have d: "gray_dims img" using w b1 by (simp add: white_image_def valid_gray_dims)
    have "nibble_of (gray_output img (Fin 1)) (nat (width img)) j i = 15"
      if "j < nat (height img)" "i < nat (width img)" for j i
      unfolding gray_nibble[OF d that] gray_level_at_def gray_level_def white_samples[OF w that]
      by (rule level_of_255)
    then show ?thesis using toGrayImage_ok[OF a, of "Fin 1"] by simp
  qed
  have 3: "\<exists>out. toMonoImage cap img s (Fin 1) = Inr out \<and>
         (\<forall>j < nat (height img). \<forall>i < nat (width img).
            bit (out ! (j * ((nat (width img) + 7) div 8) + i div 8)) (7 - i mod 8))"
    if b: "black_image img" and b7: "width img < 2 ^ 31 - 7" and a: "mono_accepts cap img"
    using mono_output_ok[OF a, of s "Fin 1"] black_mono_bit[OF b b7, of _ _ s] by simp
  have 4: "\<exists>out. toGrayImage cap img (Fin 1) = Inr out \<and>
         (\<forall>j < nat (height img). \<forall>i < nat (width img). nibble_of out (nat (width img)) j i = 0)"
    if b: "black_image img" and b1: "width img < 2 ^ 31 - 1" and a: "gray_accepts cap img"
  proof -
    have d: "gray_dims img" using b b1 by (simp add: black_image_def valid_gray_dims)
    have "nibble_of (gray_output img (Fin 1)) (nat (width img)) j i = 0"
      if "j < nat (height img)" "i < nat (width img)" for j i
      unfolding gray_nibble[OF d that] gray_level_at_def gray_level_def black_samples[OF b that]
      by (rule level_of_0)
    then show ?thesis using toGrayImage_ok[OF a, of "Fin 1"] by simp
  qed
  from 1 2 3 4 show ?thesis by blast
qed

theorem uniform_images_witness:
  "white_image \<lparr>data = [255, 255, 255, 255], width = 1, height = 1\<rparr> \<and>
   black_image \<lparr>data = [0, 0, 0, 255], width = 1, height = 1\<rparr> \<and>
   mono_accepts 4294967295 \<lparr>data = [255, 255, 255, 255], width = 1, height = 1\<rparr> \<and>
   gray_accepts 4294967295 \<lparr>data = [255, 255, 255, 255], width = 1, height = 1\<rparr> \<and>
   mono_accepts 4294967295 \<lparr>data = [0, 0, 0, 255], width = 1, height = 1\<rparr> \<and>
   gray_accepts 4294967295 \<lparr>data = [0, 0, 0, 255], width = 1, height = 1\<rparr> \<and>
   (\<exists>out. toMonoImage 4294967295 \<lparr>data = [255, 255, 255, 255], width = 1, height = 1\<rparr> 1 (Fin 1) = Inr out \<and>
      out ! 0 = 0) \<and>
   (\<exists>out. toGrayImage 4294967295 \<lparr>data = [255, 255, 255, 255], width = 1, height = 1\<rparr> (Fin 1) = Inr out \<and>
      nibble_of out 1 0 0 = 15) \<and>
   (\<exists>out. toMonoImage 4294967295 \<lparr>data = [0, 0, 0, 255], width = 1, height = 1\<rparr> 1 (Fin 1) = Inr out \<and>
      bit (out ! 0) 7) \<and>
   (\<exists>out. toGrayImage 4294967295 \<lparr>data = [0, 0, 0, 255], width = 1, height = 1\<rparr> (Fin 1) = Inr out \<and>
      nibble_of out 1 0 0 = 0)"
proof -
  let ?W = "\<lparr>data = [255, 255, 255, 255], width = 1, height = 1\<rparr>"
  let ?B = "\<lparr>data = [0, 0, 0, 255], width = 1, height = 1\<rparr>"
  have w: "white_image ?W"
    by (auto simp: white_image_def valid_image_def nth_Cons')
  have b: "black_image ?B"
    by (auto simp: black_image_def valid_image_def nth_Cons')
  have aw: "mono_accepts 4294967295 ?W" "gray_accepts 4294967295 ?W"
    by (simp_all add: mono_accepts_def gray_accepts_def alloc_fails_def mono_targetSize_def
        gray_targetSize_def sshr32_def)
  have ab: "mono_accepts 4294967295 ?B" "gray_accepts 4294967295 ?B"
    by (simp_all add: mono_accepts_def gray_accepts_def alloc_fails_def mono_targetSize_def
        gray_targetSize_def sshr32_def)
  have ww: "width ?W < 2 ^ 31 - 7" "width ?W < 2 ^ 31 - 1" by simp_all
  have wb: "width ?B < 2 ^ 31 - 7" "width ?B < 2 ^ 31 - 1" by simp_all
  from uniform_images [of ?W 4294967295 1] w aw ww
  obtain o1 o2 where o1: "toMonoImage 4294967295 ?W 1 (Fin 1) = Inr o1" "\<forall>k < length o1. o1 ! k = 0"
    and o2: "toGrayImage 4294967295 ?W (Fin 1) = Inr o2"
      "\<forall>j < nat (height ?W). \<forall>i < nat (width ?W). nibble_of o2 (nat (width ?W)) j i = 15"
    by blast
  from uniform_images [of ?B 4294967295 1] b ab wb
  obtain o3 o4 where o3: "toMonoImage 4294967295 ?B 1 (Fin 1) = Inr o3"
      "\<forall>j < nat (height ?B). \<forall>i < nat (width ?B).
         bit (o3 ! (j * ((nat (width ?B) + 7) div 8) + i div 8)) (7 - i mod 8)"
    and o4: "toGrayImage 4294967295 ?B (Fin 1) = Inr o4"
      "\<forall>j < nat (height ?B). \<forall>i < nat (width ?B). nibble_of o4 (nat (width ?B)) j i = 0"
    by blast
  have "length o1 = 1"
    using toMonoImage_length[OF o1(1)] by (simp add: mono_targetSize_def sshr32_def)
  with o1(2) have 1: "o1 ! 0 = 0" by simp
  from o2(2) have 2: "nibble_of o2 1 0 0 = 15" by simp
  from o3(2) have 3: "bit (o3 ! 0) 7" by simp
  from o4(2) have 4: "nibble_of o4 1 0 0 = 0" by simp
  from w b aw ab o1(1) o2(1) o3(1) o4(1) 1 2 3 4 show ?thesis by simp
qed

section \<open>The diffusion kernels\<close>

lemma rdf_fold_bump:
  assumes "rdf (hp b) m = Fin x"
  shows "rdf (fold bump (map (\<lambda>(a, k, y). (a, k, Fin y)) ws) hp b) m =
           Fin (x + (\<Sum>(a, k, y)\<leftarrow>ws. if a = b \<and> k = m then y else 0))"
  using assms
proof (induction ws arbitrary: hp x)
  case Nil
  then show ?case by simp
next
  case (Cons w ws)
  obtain a k y where w: "w = (a, k, y)" by (cases w)
  from Cons.prems have len: "m < length (hp b)" by (auto simp: rdf_def split: if_splits)
  have "rdf (bump (a, k, Fin y) hp b) m = Fin (x + (if a = b \<and> k = m then y else 0))"
    using Cons.prems len by (simp add: rdf_bump)
  then have "rdf (fold bump (map (\<lambda>(a, k, y). (a, k, Fin y)) ws) (bump (a, k, Fin y) hp) b) m =
      Fin (x + (if a = b \<and> k = m then y else 0) +
        (\<Sum>(a, k, y)\<leftarrow>ws. if a = b \<and> k = m then y else 0))"
    by (rule Cons.IH)
  then show ?case by (simp add: w add.assoc)
qed

lemma diffuse_spec_kernel:
  assumes "s = 1 \<or> s = 2 \<or> s = 3"
  shows "diffuse s (bs ! 0) (bs ! 1) (bs ! 2) i (Fin e) hp =
           fold bump (map (\<lambda>(a, k, y). (a, k, Fin y))
             (map (\<lambda>(r, c, wt). (bs ! r, nat (int i + 2 + c), e * wt)) (spec_kernel s))) hp"
proof -
  have c: "3 + i = i + 3" "4 + i = i + 4" by simp_all
  consider "s = 1" | "s = 2" | "s = 3" using assms by blast
  then show ?thesis
  proof cases
    case 1
    then show ?thesis by (simp add: diffuse_def spec_kernel_def nat_add_distrib c)
  next
    case 2
    then show ?thesis by (simp add: diffuse_def spec_kernel_def nat_add_distrib Let_def c)
  next
    case 3
    have m: "e * 2 = 2 * e" "e * 4 = 4 * e" by simp_all
    from 3 show ?thesis by (simp add: diffuse_def spec_kernel_def nat_add_distrib Let_def c m)
  qed
qed

text \<open>
  What lines 173-183 do to the store: for every kernel entry \<open>(r, c, wt)\<close> the share
  \<open>wt\<close> of the error is added to slot \<open>r\<close> at the index of column \<open>i + c\<close>. A cell that
  several entries address, because their slots hold the same buffer, receives the sum.
\<close>

lemma diffuse_shares:
  assumes "s = 1 \<or> s = 2 \<or> s = 3" and "rdf (hp b) m = Fin x"
  shows "rdf (diffuse s (bs ! 0) (bs ! 1) (bs ! 2) i (Fin e) hp b) m =
           Fin (x + (\<Sum>(r, c, wt)\<leftarrow>spec_kernel s.
                       if bs ! r = b \<and> nat (int i + 2 + c) = m then e * wt else 0))"
proof -
  let ?ws = "map (\<lambda>(r, c, wt). (bs ! r, nat (int i + 2 + c), e * wt)) (spec_kernel s)"
  have "rdf (fold bump (map (\<lambda>(a, k, y). (a, k, Fin y)) ?ws) hp b) m =
      Fin (x + (\<Sum>(a, k, y)\<leftarrow>?ws. if a = b \<and> k = m then y else 0))"
    using assms(2) by (rule rdf_fold_bump)
  then show ?thesis
    unfolding diffuse_spec_kernel[OF assms(1)]
    by (simp add: comp_def case_prod_unfold cong: if_cong)
qed

end
